theory Spec2Isabelle
  imports Complex_Main
begin

section \<open>Numbers\<close>

text \<open>
  The source computes with JavaScript numbers. The embedding uses exact rationals in
  their place: a price such as 0.618 is the rational 618/1000, and the quantisation
  \<^verbatim>\<open>parseFloat(x.toFixed(3))\<close> is rounding to the nearest multiple of 1/1000 (ties away
  from zero, as \<^verbatim>\<open>toFixed\<close> does). The special values NaN and Infinity have no counterpart;
  the one place of the source that can produce them (a division by a zero amount) is
  pointed out where it is modelled. Times are milliseconds as integers.
\<close>

definition tick :: rat where
  "tick = 1 / 1000"

definition toFixed3 :: "rat \<Rightarrow> rat" where
  "toFixed3 x =
     (if x < 0 then - (of_int \<lfloor>(- x) * 1000 + 1 / 2\<rfloor> / 1000)
      else of_int \<lfloor>x * 1000 + 1 / 2\<rfloor> / 1000)"

definition tickAligned :: "rat \<Rightarrow> bool" where
  "tickAligned p \<longleftrightarrow> of_int \<lfloor>p * 1000\<rfloor> = p * 1000"

definition VALUE_THRESHOLD :: rat where
  "VALUE_THRESHOLD = 500"

definition MIN_DEPTH_CHECK_USD :: rat where
  "MIN_DEPTH_CHECK_USD = 500"

definition COOLDOWN_MS :: int where
  "COOLDOWN_MS = 30 * 60 * 1000"

section \<open>Data model (orders\_manager.ts, orders.ts, order\_storage.ts)\<close>

text \<open>
  Optional string fields of the JavaScript objects are strings here, the empty string
  standing for an absent field: every test the source makes on them is a truthiness test,
  which an absent field and an empty string both fail.
\<close>

record MarketBid =
  bid_price :: rat
  bid_quantity :: rat
  bid_value :: rat

record TrackedOrder =
  price :: rat
  orderHash :: string

record TrackedMarket =
  tm_id :: nat
  title :: string
  orders :: "TrackedOrder list"
  cancelCount :: nat
  cooldownUntil :: int

datatype side = BUY | SELL

text \<open>The signed order object (\<^verbatim>\<open>details.order\<close>), as far as the manager reads it.\<close>

record SignedOrder =
  so_hash :: string
  so_makerAmount :: "rat option"
  so_takerAmount :: "rat option"

text \<open>The data of one order as the API returns it and as storage keeps it once merged.\<close>

record OrderDetails =
  od_order :: "SignedOrder option"
  od_id :: string
  od_isNegRisk :: bool
  od_isYieldBearing :: bool
  od_status :: string
  od_makerAmount :: "rat option"
  od_takerAmount :: "rat option"

text \<open>An entry of the open-order listing; 0 is the falsy market id.\<close>

record ApiOrder =
  api_id :: string
  api_marketId :: nat
  api_hash :: string
  api_makerAmount :: "rat option"
  api_takerAmount :: "rat option"
  api_side :: "side option"

text \<open>\<^verbatim>\<open>OrderData\<close>, the element of a cancellation batch.\<close>

record OrderData =
  cd_order :: SignedOrder
  cd_id :: string
  cd_marketId :: nat
  cd_isNegRisk :: bool
  cd_isYieldBearing :: bool
  cd_status :: string
  cd_hash :: string

text \<open>The storage file: markets, each with its order records.\<close>

record StoredOrder =
  st_orderId :: string
  st_orderHash :: string
  st_details :: "OrderDetails option"

record StoredMarket =
  market_id :: nat
  market_title :: string
  market_orders :: "StoredOrder list"

section \<open>The gateway\<close>

text \<open>
  Every call that leaves the process is recorded as an event, most recent first. What the
  outside world answers is given by a record of functions of the events so far and of the
  request, so an answer may depend on everything that happened before it. The embedding
  is of a \<^verbatim>\<open>PredictOrders\<close> object after \<^verbatim>\<open>initialize()\<close>: its builder is set.
\<close>

datatype open_result = Placed string string string | OpenFailed

datatype group_result = GroupOk | GroupFailed | GroupThrew

datatype event =
    EvOpenOrder nat rat open_result
  | EvCancelGroup "SignedOrder list" bool bool group_result
  | EvOrderbook nat
  | EvGetOrder string
  | EvOpenOrders
  | EvSellAll

record gateway =
  gw_open :: "event list \<Rightarrow> nat \<Rightarrow> rat \<Rightarrow> open_result"
  gw_cancel :: "event list \<Rightarrow> SignedOrder list \<Rightarrow> bool \<Rightarrow> bool \<Rightarrow> group_result"
  gw_orderbook :: "event list \<Rightarrow> nat \<Rightarrow> (rat \<times> rat) list option"
  gw_order :: "event list \<Rightarrow> string \<Rightarrow> OrderDetails option"
  gw_openOrders :: "event list \<Rightarrow> ApiOrder list option"
  gw_sell :: "event list \<Rightarrow> bool"
  gw_now :: "event list \<Rightarrow> int"

record sys =
  storage :: "StoredMarket list"
  history :: "event list"

datatype error = TypeError | GatewayError

section \<open>OrderStorage\<close>

definition findMarket :: "StoredMarket list \<Rightarrow> nat \<Rightarrow> StoredMarket option" where
  "findMarket markets marketId = find (\<lambda>m. market_id m = marketId) markets"

fun addToMarket :: "StoredOrder \<Rightarrow> nat \<Rightarrow> StoredMarket list \<Rightarrow> StoredMarket list" where
  "addToMarket r marketId [] = []"
| "addToMarket r marketId (m # ms) =
     (if market_id m = marketId then m\<lparr>market_orders := market_orders m @ [r]\<rparr> # ms
      else m # addToMarket r marketId ms)"

definition addOrder :: "string \<Rightarrow> string \<Rightarrow> nat \<Rightarrow> string \<Rightarrow> StoredMarket list \<Rightarrow> StoredMarket list" where
  "addOrder oid h marketId marketTitle markets =
     (let orderRecord = \<lparr>st_orderId = oid, st_orderHash = h, st_details = None\<rparr>
      in case findMarket markets marketId of
           Some m \<Rightarrow> addToMarket orderRecord marketId markets
         | None \<Rightarrow> markets @ [\<lparr>market_id = marketId, market_title = marketTitle,
                                market_orders = [orderRecord]\<rparr>])"

fun updateInOrders :: "string \<Rightarrow> OrderDetails \<Rightarrow> StoredOrder list \<Rightarrow> StoredOrder list" where
  "updateInOrders h d [] = []"
| "updateInOrders h d (r # rs) =
     (if st_orderHash r = h then r\<lparr>st_details := Some d\<rparr> # rs
      else r # updateInOrders h d rs)"

fun updateOrderDetails :: "string \<Rightarrow> OrderDetails \<Rightarrow> StoredMarket list \<Rightarrow> StoredMarket list" where
  "updateOrderDetails h d [] = []"
| "updateOrderDetails h d (m # ms) =
     (if h \<in> set (map st_orderHash (market_orders m))
      then m\<lparr>market_orders := updateInOrders h d (market_orders m)\<rparr> # ms
      else m # updateOrderDetails h d ms)"

definition getOrdersForMarket :: "StoredMarket list \<Rightarrow> nat \<Rightarrow> StoredOrder list" where
  "getOrdersForMarket markets marketId =
     (case findMarket markets marketId of Some m \<Rightarrow> market_orders m | None \<Rightarrow> [])"

fun getStoredOrderByHash :: "StoredMarket list \<Rightarrow> string \<Rightarrow> StoredOrder option" where
  "getStoredOrderByHash [] h = None"
| "getStoredOrderByHash (m # ms) h =
     (case find (\<lambda>r. st_orderHash r = h) (market_orders m) of
        Some r \<Rightarrow> Some r
      | None \<Rightarrow> getStoredOrderByHash ms h)"

fun removeFromFirst :: "string \<Rightarrow> StoredMarket list \<Rightarrow> StoredMarket list" where
  "removeFromFirst h [] = []"
| "removeFromFirst h (m # ms) =
     (if h \<in> set (map st_orderHash (market_orders m))
      then m\<lparr>market_orders := filter (\<lambda>r. st_orderHash r \<noteq> h) (market_orders m)\<rparr> # ms
      else m # removeFromFirst h ms)"

definition deleteOrder :: "string \<Rightarrow> StoredMarket list \<Rightarrow> StoredMarket list" where
  "deleteOrder h markets =
     (case find (\<lambda>m. h \<in> set (map st_orderHash (market_orders m))) markets of
        None \<Rightarrow> markets
      | Some m \<Rightarrow>
          (if filter (\<lambda>r. st_orderHash r \<noteq> h) (market_orders m) = []
           then filter (\<lambda>x. market_id x \<noteq> market_id m) (removeFromFirst h markets)
           else removeFromFirst h markets))"

definition storedHashes :: "StoredMarket list \<Rightarrow> string set" where
  "storedHashes markets = (\<Union>m \<in> set markets. set (map st_orderHash (market_orders m)))"

section \<open>PredictOrders\<close>

definition openOrder :: "gateway \<Rightarrow> nat \<Rightarrow> rat \<Rightarrow> sys \<Rightarrow> open_result \<times> sys" where
  "openOrder g marketId p s =
     (let r = gw_open g (history s) marketId p;
          s1 = s\<lparr>history := EvOpenOrder marketId p r # history s\<rparr>
      in case r of
           Placed oid h ttl \<Rightarrow> (r, s1\<lparr>storage := addOrder oid h marketId ttl (storage s1)\<rparr>)
         | OpenFailed \<Rightarrow> (r, s1))"

definition getOrderByHash :: "gateway \<Rightarrow> string \<Rightarrow> sys \<Rightarrow> OrderDetails option \<times> sys" where
  "getOrderByHash g h s =
     (let r = gw_order g (history s) h;
          s1 = s\<lparr>history := EvGetOrder h # history s\<rparr>
      in case r of
           Some d \<Rightarrow> (r, s1\<lparr>storage := updateOrderDetails h d (storage s1)\<rparr>)
         | None \<Rightarrow> (r, s1))"

definition getOpenOrdersRecursively :: "gateway \<Rightarrow> sys \<Rightarrow> ApiOrder list option \<times> sys" where
  "getOpenOrdersRecursively g s =
     (gw_openOrders g (history s), s\<lparr>history := EvOpenOrders # history s\<rparr>)"

definition groupOf :: "bool \<Rightarrow> bool \<Rightarrow> OrderData list \<Rightarrow> SignedOrder list" where
  "groupOf nr yb os =
     map cd_order (filter (\<lambda>d. cd_isNegRisk d = nr \<and> cd_isYieldBearing d = yb) os)"

definition removeOrdersFromStorage :: "SignedOrder list \<Rightarrow> StoredMarket list \<Rightarrow> StoredMarket list" where
  "removeOrdersFromStorage os markets =
     fold (\<lambda>od st. if so_hash od \<noteq> [] then deleteOrder (so_hash od) st else st) os markets"

text \<open>
  One of the four blocks of \<^verbatim>\<open>cancelOrders\<close>: the builder is called for a non-empty group;
  the flag \<open>caught\<close> says whether the block sits in a \<^verbatim>\<open>try\<close> (only the
  regularYieldBearing block does). The result is the running \<^verbatim>\<open>allSuccess\<close>.
\<close>

definition cancelGroup ::
  "gateway \<Rightarrow> bool \<Rightarrow> SignedOrder list \<Rightarrow> bool \<Rightarrow> bool \<Rightarrow> bool \<Rightarrow> sys \<Rightarrow> (error + bool) \<times> sys" where
  "cancelGroup g caught grp nr yb allSuccess s =
     (if grp = [] then (Inr allSuccess, s)
      else
        let r = gw_cancel g (history s) grp nr yb;
            s1 = s\<lparr>history := EvCancelGroup grp nr yb r # history s\<rparr>
        in case r of
             GroupOk \<Rightarrow> (Inr allSuccess, s1\<lparr>storage := removeOrdersFromStorage grp (storage s1)\<rparr>)
           | GroupFailed \<Rightarrow> (Inr False, s1)
           | GroupThrew \<Rightarrow> (if caught then (Inr False, s1) else (Inl GatewayError, s1)))"

definition cancelOrders :: "gateway \<Rightarrow> OrderData list \<Rightarrow> sys \<Rightarrow> (error + bool) \<times> sys" where
  "cancelOrders g os s =
     (if os = [] then (Inr True, s)
      else
        case cancelGroup g False (groupOf False False os) False False True s of
          (Inl e, s1) \<Rightarrow> (Inl e, s1)
        | (Inr a1, s1) \<Rightarrow>
        (case cancelGroup g False (groupOf True False os) True False a1 s1 of
          (Inl e, s2) \<Rightarrow> (Inl e, s2)
        | (Inr a2, s2) \<Rightarrow>
        (case cancelGroup g True (groupOf False True os) False True a2 s2 of
          (Inl e, s3) \<Rightarrow> (Inl e, s3)
        | (Inr a3, s3) \<Rightarrow>
            cancelGroup g False (groupOf True True os) True True a3 s3)))"

section \<open>The manager: cancellation and cooldown\<close>

definition incrementCancelCount :: "int \<Rightarrow> TrackedMarket \<Rightarrow> nat \<Rightarrow> TrackedMarket" where
  "incrementCancelCount now tracked n =
     (let t1 = tracked\<lparr>cancelCount := cancelCount tracked + n\<rparr>
      in if cancelCount t1 \<ge> 10 \<and> cooldownUntil t1 = 0
         then t1\<lparr>cooldownUntil := now + COOLDOWN_MS\<rparr> else t1)"

text \<open>
  Step 2 of both cancel functions, for one order: the stored record is used when it has a
  signed order, otherwise the API is asked; an order without a signed order is left out.
\<close>

definition detailsId :: "StoredOrder option \<Rightarrow> OrderDetails \<Rightarrow> string" where
  "detailsId stored d =
     (if od_id d \<noteq> [] then od_id d
      else case stored of Some r \<Rightarrow> st_orderId r | None \<Rightarrow> [])"

definition resolveDetails ::
  "gateway \<Rightarrow> nat \<Rightarrow> TrackedOrder \<Rightarrow> sys \<Rightarrow> OrderData option \<times> sys" where
  "resolveDetails g marketId ord s =
     (let stored = getStoredOrderByHash (storage s) (orderHash ord);
          fromStore = (case stored of Some r \<Rightarrow> st_details r | None \<Rightarrow> None);
          hasOrder = (case fromStore of Some d \<Rightarrow> od_order d \<noteq> None | None \<Rightarrow> False);
          (viaApi, details, s1) =
            (if hasOrder then (False, fromStore, s)
             else case getOrderByHash g (orderHash ord) s of
                    (Some d, s') \<Rightarrow> (True, Some d, s')
                  | (None, s') \<Rightarrow> (False, fromStore, s'))
      in case details of
           None \<Rightarrow> (None, s1)
         | Some d \<Rightarrow>
             (case od_order d of
                None \<Rightarrow> (None, s1)
              | Some so \<Rightarrow>
                  (Some \<lparr>cd_order = so,
                         cd_id = detailsId (if viaApi then None else stored) d,
                         cd_marketId = marketId,
                         cd_isNegRisk = od_isNegRisk d,
                         cd_isYieldBearing = od_isYieldBearing d,
                         cd_status = od_status d,
                         cd_hash = orderHash ord\<rparr>, s1)))"

fun fetchDetails ::
  "gateway \<Rightarrow> nat \<Rightarrow> TrackedOrder list \<Rightarrow> sys \<Rightarrow> OrderData list \<times> sys" where
  "fetchDetails g marketId [] s = ([], s)"
| "fetchDetails g marketId (ord # rest) s =
     (let (d, s1) = resolveDetails g marketId ord s;
          (ds, s2) = fetchDetails g marketId rest s1
      in ((case d of Some x \<Rightarrow> [x] | None \<Rightarrow> []) @ ds, s2))"

text \<open>
  Step 3 of both cancel functions: the batch is sent when it is not empty; when the
  gateway reports success, every tracked order whose hash was in the batch is dropped and
  the number of distinct hashes is counted and returned.
\<close>

definition batchCancel ::
  "gateway \<Rightarrow> TrackedMarket \<Rightarrow> OrderData list \<Rightarrow> sys \<Rightarrow> (error + nat) \<times> TrackedMarket \<times> sys" where
  "batchCancel g tracked orderDataList s =
     (if orderDataList = [] then (Inr 0, tracked, s)
      else case cancelOrders g orderDataList s of
             (Inl e, s1) \<Rightarrow> (Inl e, tracked, s1)
           | (Inr False, s1) \<Rightarrow> (Inr 0, tracked, s1)
           | (Inr True, s1) \<Rightarrow>
               (let canceledHashes = set (map cd_hash orderDataList);
                    n = card canceledHashes;
                    t1 = tracked\<lparr>orders := filter (\<lambda>x. orderHash x \<notin> canceledHashes) (orders tracked)\<rparr>
                in (Inr n, incrementCancelCount (gw_now g (history s1)) t1 n, s1)))"

text \<open>
  \<^verbatim>\<open>cancelTopOrders\<close> reads \<^verbatim>\<open>tracked.orders[i]\<close> for every \<open>i < count\<close> as long as the list is
  not empty; beyond the end of the list that is \<^verbatim>\<open>undefined\<close>, and step 2 throws a
  TypeError when it reaches such an entry, after the details of the real ones were fetched.
\<close>

definition cancelTopOrders ::
  "gateway \<Rightarrow> TrackedMarket \<Rightarrow> nat \<Rightarrow> sys \<Rightarrow> (error + nat) \<times> TrackedMarket \<times> sys" where
  "cancelTopOrders g tracked count s =
     (if count = 0 \<or> orders tracked = [] then (Inr 0, tracked, s)
      else
        let ordersToCancel = take count (orders tracked);
            (orderDataList, s1) = fetchDetails g (tm_id tracked) ordersToCancel s
        in if count > length (orders tracked) then (Inl TypeError, tracked, s1)
           else batchCancel g tracked orderDataList s1)"

definition cancelBottomOrders ::
  "gateway \<Rightarrow> TrackedMarket \<Rightarrow> nat \<Rightarrow> sys \<Rightarrow> (error + nat) \<times> TrackedMarket \<times> sys" where
  "cancelBottomOrders g tracked count s =
     (let ordersToCancel = take count (rev (orders tracked))
      in if ordersToCancel = [] then (Inr 0, tracked, s)
         else
           let (orderDataList, s1) = fetchDetails g (tm_id tracked) ordersToCancel s
           in batchCancel g tracked orderDataList s1)"

section \<open>The manager: order book, placement and reconciliation\<close>

text \<open>\<^verbatim>\<open>sort((a, b) => b.price - a.price)\<close>: a stable sort, highest price first.\<close>

definition sortDesc :: "TrackedOrder list \<Rightarrow> TrackedOrder list" where
  "sortDesc xs = sort_key (\<lambda>x. - price x) xs"

definition fetchOrderbook :: "gateway \<Rightarrow> nat \<Rightarrow> sys \<Rightarrow> MarketBid list \<times> sys" where
  "fetchOrderbook g marketId s =
     (let s1 = s\<lparr>history := EvOrderbook marketId # history s\<rparr>
      in case gw_orderbook g (history s) marketId of
           Some bs \<Rightarrow> (map (\<lambda>(p, q). \<lparr>bid_price = p, bid_quantity = q, bid_value = p * q\<rparr>) bs, s1)
         | None \<Rightarrow> ([], s1))"

text \<open>
  The depth scan of \<^verbatim>\<open>processMarket\<close> and \<^verbatim>\<open>openBottomOrders\<close>: the index of the first of
  the first six bids at which the running sum of values exceeds the threshold.
\<close>

fun depthScan :: "rat \<Rightarrow> nat \<Rightarrow> MarketBid list \<Rightarrow> nat option" where
  "depthScan cum i [] = None"
| "depthScan cum i (b # bs) =
     (if i < 6
      then (if cum + bid_value b > MIN_DEPTH_CHECK_USD then Some i
            else depthScan (cum + bid_value b) (Suc i) bs)
      else None)"

definition findStartIndex :: "MarketBid list \<Rightarrow> nat option" where
  "findStartIndex bids = depthScan 0 0 bids"

fun targetLoop :: "rat \<Rightarrow> nat \<Rightarrow> nat \<Rightarrow> rat list" where
  "targetLoop startPrice i 0 = []"
| "targetLoop startPrice i (Suc n) =
     (if startPrice - of_nat i * tick > 0
      then toFixed3 (startPrice - of_nat i * tick) # targetLoop startPrice (Suc i) n
      else [])"

definition targetPrices :: "MarketBid list \<Rightarrow> nat \<Rightarrow> rat list" where
  "targetPrices bids startIndex =
     (let triggerPrice = bid_price (bids ! startIndex);
          startPrice = toFixed3 (triggerPrice - tick);
          targetOrderCount = min 5 (6 - startIndex)
      in targetLoop startPrice 0 targetOrderCount)"

text \<open>
  The price of an order found open at start-up. With a zero taker amount JavaScript
  yields Infinity or NaN where the quotient below is 0.
\<close>

definition existingPrice :: "OrderDetails \<Rightarrow> rat" where
  "existingPrice d =
     (let (maker, taker) = (case od_order d of
                              Some so \<Rightarrow> (so_makerAmount so, so_takerAmount so)
                            | None \<Rightarrow> (od_makerAmount d, od_takerAmount d))
      in case (maker, taker) of
           (Some m, Some t) \<Rightarrow> toFixed3 (m / t)
         | _ \<Rightarrow> 0)"

fun existingLoop :: "gateway \<Rightarrow> StoredOrder list \<Rightarrow> sys \<Rightarrow> TrackedOrder list \<times> sys" where
  "existingLoop g [] s = ([], s)"
| "existingLoop g (r # rs) s =
     (let (res, s1) = getOrderByHash g (st_orderHash r) s;
          (found, s2) =
            (case res of
               Some d \<Rightarrow>
                 (if od_status d = ''OPEN''
                  then ([\<lparr>price = existingPrice d, orderHash = st_orderHash r\<rparr>], s1)
                  else ([], s1\<lparr>storage := deleteOrder (st_orderHash r) (storage s1)\<rparr>))
             | None \<Rightarrow> ([], s1\<lparr>storage := deleteOrder (st_orderHash r) (storage s1)\<rparr>));
          (rest, s3) = existingLoop g rs s2
      in (found @ rest, s3))"

definition getExistingOrdersForMarket :: "gateway \<Rightarrow> nat \<Rightarrow> sys \<Rightarrow> TrackedOrder list \<times> sys" where
  "getExistingOrdersForMarket g marketId s =
     existingLoop g (getOrdersForMarket (storage s) marketId) s"

fun placeAll ::
  "gateway \<Rightarrow> nat \<Rightarrow> rat list \<Rightarrow> TrackedOrder list \<Rightarrow> sys \<Rightarrow> TrackedOrder list \<times> sys" where
  "placeAll g marketId [] placedOrders s = (placedOrders, s)"
| "placeAll g marketId (p # ps) placedOrders s =
     (case openOrder g marketId p s of
        (Placed oid h ttl, s1) \<Rightarrow>
          placeAll g marketId ps (placedOrders @ [\<lparr>price = p, orderHash = h\<rparr>]) s1
      | (OpenFailed, s1) \<Rightarrow> placeAll g marketId ps placedOrders s1)"

definition newTracked :: "nat \<Rightarrow> string \<Rightarrow> TrackedOrder list \<Rightarrow> TrackedMarket" where
  "newTracked marketId ttl os =
     \<lparr>tm_id = marketId, title = ttl, orders = sortDesc os, cancelCount = 0, cooldownUntil = 0\<rparr>"

definition processMarket :: "gateway \<Rightarrow> nat \<Rightarrow> string \<Rightarrow> sys \<Rightarrow> TrackedMarket option \<times> sys" where
  "processMarket g marketId ttl s =
     (let (existingOrders, s1) = getExistingOrdersForMarket g marketId s;
          (bids, s2) = fetchOrderbook g marketId s1
      in if bids = [] then (None, s2)
         else
           case findStartIndex bids of
             None \<Rightarrow>
               (if existingOrders \<noteq> [] then (Some (newTracked marketId ttl existingOrders), s2)
                else (None, s2))
           | Some startIndex \<Rightarrow>
               (let pricesToPlace =
                      filter (\<lambda>p. p \<notin> set (map price existingOrders)) (targetPrices bids startIndex)
                in if pricesToPlace = []
                   then (Some (newTracked marketId ttl existingOrders), s2)
                   else
                     let (placedOrders, s3) = placeAll g marketId pricesToPlace existingOrders s2
                     in if placedOrders \<noteq> [] then (Some (newTracked marketId ttl placedOrders), s3)
                        else (None, s3)))"

text \<open>
  The price of an untracked order found in the open-order listing. With a zero
  denominator JavaScript yields Infinity or NaN where the quotient below is 0.
\<close>

definition priceFromAmounts :: "ApiOrder \<Rightarrow> rat" where
  "priceFromAmounts a =
     (case (api_makerAmount a, api_takerAmount a) of
        (Some m, Some t) \<Rightarrow>
          (if api_side a = Some BUY then toFixed3 (m / t) else toFixed3 (t / m))
      | _ \<Rightarrow> 0)"

text \<open>Step 1 of the synchronisation of one market (the loop over its API orders).\<close>

fun addUntracked ::
  "string set \<Rightarrow> nat \<Rightarrow> string \<Rightarrow> ApiOrder list \<Rightarrow> TrackedOrder list \<Rightarrow> string set \<Rightarrow>
   StoredMarket list \<Rightarrow> TrackedOrder list \<times> string set \<times> StoredMarket list" where
  "addUntracked currentHashes marketId ttl [] os apiHashes st = (os, apiHashes, st)"
| "addUntracked currentHashes marketId ttl (a # rest) os apiHashes st =
     (if api_hash a \<noteq> []
      then
        (if api_hash a \<notin> currentHashes
         then addUntracked currentHashes marketId ttl rest
                (os @ [\<lparr>price = priceFromAmounts a, orderHash = api_hash a\<rparr>])
                (insert (api_hash a) apiHashes)
                (addOrder (api_id a) (api_hash a) marketId ttl st)
         else addUntracked currentHashes marketId ttl rest os (insert (api_hash a) apiHashes) st)
      else addUntracked currentHashes marketId ttl rest os apiHashes st)"

definition marketApiOrders :: "ApiOrder list \<Rightarrow> nat \<Rightarrow> ApiOrder list" where
  "marketApiOrders allOpenOrders marketId =
     filter (\<lambda>a. api_marketId a \<noteq> 0 \<and> api_marketId a = marketId) allOpenOrders"

definition syncMarket ::
  "ApiOrder list \<Rightarrow> TrackedMarket \<Rightarrow> StoredMarket list \<Rightarrow> TrackedMarket \<times> StoredMarket list" where
  "syncMarket allOpenOrders tracked st =
     (let currentHashes = set (map orderHash (orders tracked));
          (os, apiHashes, st1) =
            addUntracked currentHashes (tm_id tracked) (title tracked)
              (marketApiOrders allOpenOrders (tm_id tracked)) (orders tracked) {} st
      in (tracked\<lparr>orders := sortDesc (filter (\<lambda>x. orderHash x \<in> apiHashes) os)\<rparr>, st1))"

fun syncAll ::
  "ApiOrder list \<Rightarrow> TrackedMarket list \<Rightarrow> StoredMarket list \<Rightarrow> TrackedMarket list \<times> StoredMarket list" where
  "syncAll allOpenOrders [] st = ([], st)"
| "syncAll allOpenOrders (tracked # rest) st =
     (let (t1, st1) = syncMarket allOpenOrders tracked st;
          (ts, st2) = syncAll allOpenOrders rest st1
      in (t1 # ts, st2))"

definition syncOpenOrders :: "gateway \<Rightarrow> TrackedMarket list \<Rightarrow> sys \<Rightarrow> TrackedMarket list \<times> sys" where
  "syncOpenOrders g trackedMarkets s =
     (case getOpenOrdersRecursively g s of
        (Some allOpenOrders, s1) \<Rightarrow>
          (let (ts, st) = syncAll allOpenOrders trackedMarkets (storage s1)
           in (ts, s1\<lparr>storage := st\<rparr>))
      | (None, s1) \<Rightarrow> (trackedMarkets, s1))"

text \<open>\<^verbatim>\<open>checkAndReopenFilledOrders\<close>: the loop over the orders of one market, then the update.\<close>

fun reopenLoop ::
  "gateway \<Rightarrow> nat \<Rightarrow> TrackedOrder list \<Rightarrow> sys \<Rightarrow> (string list \<times> TrackedOrder list) \<times> sys" where
  "reopenLoop g marketId [] s = (([], []), s)"
| "reopenLoop g marketId (x # xs) s =
     (case getOrderByHash g (orderHash x) s of
        (None, s1) \<Rightarrow> reopenLoop g marketId xs s1
      | (Some d, s1) \<Rightarrow>
          (if od_status d = ''OPEN'' then reopenLoop g marketId xs s1
           else
             let s2 = s1\<lparr>storage := deleteOrder (orderHash x) (storage s1)\<rparr>;
                 (added, s4) =
                   (case openOrder g marketId (price x) s2 of
                      (Placed oid h ttl, s3) \<Rightarrow>
                        ([\<lparr>price = price x, orderHash = h\<rparr>],
                         if h \<noteq> [] then snd (getOrderByHash g h s3) else s3)
                    | (OpenFailed, s3) \<Rightarrow> ([], s3));
                 ((ordersToRemove, ordersToAdd), s5) = reopenLoop g marketId xs s4
             in ((orderHash x # ordersToRemove, added @ ordersToAdd), s5)))"

definition reopenMarket :: "gateway \<Rightarrow> TrackedMarket \<Rightarrow> sys \<Rightarrow> TrackedMarket \<times> sys" where
  "reopenMarket g tracked s =
     (let ((ordersToRemove, ordersToAdd), s1) = reopenLoop g (tm_id tracked) (orders tracked) s
      in if ordersToRemove \<noteq> []
         then (tracked\<lparr>orders :=
                 sortDesc (filter (\<lambda>x. orderHash x \<notin> set ordersToRemove) (orders tracked)
                           @ ordersToAdd)\<rparr>, s1)
         else (tracked, s1))"

fun checkAndReopenFilledOrders ::
  "gateway \<Rightarrow> TrackedMarket list \<Rightarrow> sys \<Rightarrow> TrackedMarket list \<times> sys" where
  "checkAndReopenFilledOrders g [] s = ([], s)"
| "checkAndReopenFilledOrders g (tracked # rest) s =
     (let (t1, s1) = reopenMarket g tracked s;
          (ts, s2) = checkAndReopenFilledOrders g rest s1
      in (t1 # ts, s2))"

section \<open>The manager: rebalancing\<close>

text \<open>
  The loop of \<^verbatim>\<open>openBottomOrders\<close>; \<open>i\<close> is the loop counter and the last argument but
  two the number of iterations left.
\<close>

fun openBottomLoop ::
  "gateway \<Rightarrow> rat \<Rightarrow> nat \<Rightarrow> nat \<Rightarrow> TrackedMarket \<Rightarrow> sys \<Rightarrow> TrackedMarket \<times> sys" where
  "openBottomLoop g startPrice i 0 tracked s = (tracked, s)"
| "openBottomLoop g startPrice i (Suc n) tracked s =
     (let newPrice = toFixed3 (startPrice - of_nat i * tick)
      in if newPrice \<le> 0 then (tracked, s)
         else
           case openOrder g (tm_id tracked) newPrice s of
             (Placed oid h ttl, s1) \<Rightarrow>
               openBottomLoop g startPrice (Suc i) n
                 (tracked\<lparr>orders := sortDesc (orders tracked @ [\<lparr>price = newPrice, orderHash = h\<rparr>])\<rparr>) s1
           | (OpenFailed, s1) \<Rightarrow> openBottomLoop g startPrice (Suc i) n tracked s1)"

definition openBottomOrders :: "gateway \<Rightarrow> TrackedMarket \<Rightarrow> nat \<Rightarrow> sys \<Rightarrow> TrackedMarket \<times> sys" where
  "openBottomOrders g tracked count s =
     (if orders tracked = []
      then
        let (bids, s1) = fetchOrderbook g (tm_id tracked) s
        in if bids = [] then (tracked, s1)
           else
             case findStartIndex bids of
               None \<Rightarrow> (tracked, s1)
             | Some startIndex \<Rightarrow>
                 openBottomLoop g (toFixed3 (bid_price (bids ! startIndex) - tick)) 0 count tracked s1
      else
        openBottomLoop g (toFixed3 (price (last (orders tracked)) - tick)) 0 count tracked s)"

fun openTopOrders :: "gateway \<Rightarrow> TrackedMarket \<Rightarrow> nat \<Rightarrow> sys \<Rightarrow> TrackedMarket \<times> sys" where
  "openTopOrders g tracked 0 s = (tracked, s)"
| "openTopOrders g tracked (Suc n) s =
     (case orders tracked of
        [] \<Rightarrow> (tracked, s)
      | highestOrder # _ \<Rightarrow>
          (let newPrice = toFixed3 (price highestOrder + tick)
           in if newPrice \<ge> 1 then (tracked, s)
              else
                case openOrder g (tm_id tracked) newPrice s of
                  (Placed oid h ttl, s1) \<Rightarrow>
                    openTopOrders g
                      (tracked\<lparr>orders := sortDesc (\<lparr>price = newPrice, orderHash = h\<rparr> # orders tracked)\<rparr>)
                      n (if h \<noteq> [] then snd (getOrderByHash g h s1) else s1)
                | (OpenFailed, s1) \<Rightarrow> openTopOrders g tracked n s1))"

text \<open>The sum of the values of the bids before the first one priced at or below \<open>p\<close>.\<close>

definition depthAbove :: "MarketBid list \<Rightarrow> rat \<Rightarrow> rat" where
  "depthAbove bids p = sum_list (map bid_value (takeWhile (\<lambda>b. \<not> bid_price b \<le> p) bids))"

definition ordersToMoveDown :: "TrackedOrder list \<Rightarrow> rat \<Rightarrow> nat" where
  "ordersToMoveDown os best =
     min (max 1 (length (takeWhile (\<lambda>x. price x \<ge> best) os))) (length os)"

text \<open>
  The loop that checks the depth at each target level: \<open>i\<close> is the loop counter, \<open>fuel\<close> the
  number of iterations left, and the result the last \<open>i\<close> that passed (\<^verbatim>\<open>validMoves\<close>).
\<close>

fun validMovesLoop :: "MarketBid list \<Rightarrow> rat \<Rightarrow> nat \<Rightarrow> nat \<Rightarrow> nat" where
  "validMovesLoop bids highest i 0 = i - 1"
| "validMovesLoop bids highest i (Suc fuel) =
     (if depthAbove bids (toFixed3 (highest + of_nat i * tick)) \<ge> VALUE_THRESHOLD
      then validMovesLoop bids highest (Suc i) fuel
      else i - 1)"

definition validMoves :: "MarketBid list \<Rightarrow> rat \<Rightarrow> rat \<Rightarrow> nat \<Rightarrow> nat" where
  "validMoves bids best highest len =
     (let priceGap = round ((best - highest) * 1000);
          ordersToMoveUp = min (nat priceGap) len
      in validMovesLoop bids highest 1 ordersToMoveUp)"

definition rebalanceDown ::
  "gateway \<Rightarrow> TrackedMarket \<Rightarrow> MarketBid \<Rightarrow> sys \<Rightarrow> TrackedMarket \<times> sys" where
  "rebalanceDown g tracked bestBid s =
     (case cancelTopOrders g tracked (ordersToMoveDown (orders tracked) (bid_price bestBid)) s of
        (Inl e, t1, s1) \<Rightarrow> (t1, s1)
      | (Inr cancelledCount, t1, s1) \<Rightarrow>
          (if cancelledCount > 0 then openBottomOrders g t1 cancelledCount s1 else (t1, s1)))"

definition rebalanceUp ::
  "gateway \<Rightarrow> TrackedMarket \<Rightarrow> MarketBid list \<Rightarrow> MarketBid \<Rightarrow> TrackedOrder \<Rightarrow> sys \<Rightarrow>
   TrackedMarket \<times> sys" where
  "rebalanceUp g tracked bids bestBid highestOrder s =
     (let n = validMoves bids (bid_price bestBid) (price highestOrder) (length (orders tracked))
      in if n > 0
         then
           case cancelBottomOrders g tracked n s of
             (Inl e, t1, s1) \<Rightarrow> (t1, s1)
           | (Inr cancelledCount, t1, s1) \<Rightarrow>
               (if cancelledCount > 0 then openTopOrders g t1 cancelledCount s1 else (t1, s1))
         else (tracked, s))"

text \<open>The directional part of \<^verbatim>\<open>checkAndRebalance\<close>, from the test for an empty ladder on.\<close>

definition directional ::
  "gateway \<Rightarrow> TrackedMarket \<Rightarrow> MarketBid list \<Rightarrow> sys \<Rightarrow> TrackedMarket \<times> sys" where
  "directional g tracked bids s =
     (case (orders tracked, bids) of
        (highestOrder # _, bestBid # _) \<Rightarrow>
          (if bid_price bestBid \<le> price highestOrder
              \<or> depthAbove bids (price highestOrder) < VALUE_THRESHOLD
           then rebalanceDown g tracked bestBid s
           else if bid_price bestBid > price highestOrder + tick
           then rebalanceUp g tracked bids bestBid highestOrder s
           else (tracked, s))
      | _ \<Rightarrow> (tracked, s))"

text \<open>The part of \<^verbatim>\<open>checkAndRebalance\<close> that runs outside a cooldown: trim, refill, shift.\<close>

definition rebalanceActive :: "gateway \<Rightarrow> TrackedMarket \<Rightarrow> sys \<Rightarrow> TrackedMarket \<times> sys" where
  "rebalanceActive g tracked s =
     (case (if length (orders tracked) > 5
            then cancelBottomOrders g tracked (length (orders tracked) - 5) s
            else (Inr 0, tracked, s)) of
        (Inl e, t1, s1) \<Rightarrow> (t1, s1)
      | (Inr _, t1, s1) \<Rightarrow>
          (let (bids, s2) = fetchOrderbook g (tm_id t1) s1
           in if bids = [] then (t1, s2)
              else
                let (t2, s3) = (if length (orders t1) < 5
                                then openBottomOrders g t1 (5 - length (orders t1)) s2
                                else (t1, s2))
                in directional g t2 bids s3))"

text \<open>
  \<^verbatim>\<open>checkAndRebalance\<close>. Whatever is thrown inside is caught at its end, so the market and
  the system are left as they were when it was thrown.
\<close>

definition checkAndRebalance :: "gateway \<Rightarrow> TrackedMarket \<Rightarrow> sys \<Rightarrow> TrackedMarket \<times> sys" where
  "checkAndRebalance g tracked s =
     (if cooldownUntil tracked > 0
      then
        (if gw_now g (history s) \<ge> cooldownUntil tracked
         then rebalanceActive g (tracked\<lparr>cancelCount := 0, cooldownUntil := 0\<rparr>) s
         else if orders tracked \<noteq> []
         then (case cancelBottomOrders g tracked (length (orders tracked)) s of
                 (_, t1, s1) \<Rightarrow> (t1, s1))
         else (tracked, s))
      else rebalanceActive g tracked s)"

fun rebalanceAll :: "gateway \<Rightarrow> TrackedMarket list \<Rightarrow> sys \<Rightarrow> TrackedMarket list \<times> sys" where
  "rebalanceAll g [] s = ([], s)"
| "rebalanceAll g (tracked # rest) s =
     (let (t1, s1) = checkAndRebalance g tracked s;
          (ts, s2) = rebalanceAll g rest s1
      in (t1 # ts, s2))"

text \<open>One iteration of the body of \<^verbatim>\<open>monitorLoop\<close> (the wait at its end left out).\<close>

definition monitorTick :: "gateway \<Rightarrow> TrackedMarket list \<Rightarrow> sys \<Rightarrow> TrackedMarket list \<times> sys" where
  "monitorTick g trackedMarkets s =
     (let positionSold = gw_sell g (history s);
          s1 = s\<lparr>history := EvSellAll # history s\<rparr>;
          (ts1, s2) = (if positionSold then checkAndReopenFilledOrders g trackedMarkets s1
                       else (trackedMarkets, s1));
          (ts2, s3) = syncOpenOrders g ts1 s2
      in rebalanceAll g ts2 s3)"

text \<open>What a run did to the order book, read off the events: placements and cancel batches.\<close>

fun isAction :: "event \<Rightarrow> bool" where
  "isAction (EvOpenOrder m p r) = True"
| "isAction (EvCancelGroup grp nr yb r) = True"
| "isAction _ = False"

definition actions :: "sys \<Rightarrow> event list" where
  "actions s = filter isAction (history s)"

fun openPrice :: "event \<Rightarrow> rat list" where
  "openPrice (EvOpenOrder m p r) = [p]"
| "openPrice _ = []"

text \<open>The prices of the \<^verbatim>\<open>openOrder\<close> calls made so far, oldest first.\<close>

definition openRequests :: "sys \<Rightarrow> rat list" where
  "openRequests s = concat (map openPrice (rev (history s)))"

section \<open>Concrete scenarios\<close>

text \<open>
  A gateway that accepts everything (each new order gets a fresh hash, every order has a
  signed order of the regular type, every cancel group succeeds) over a fixed order book,
  and the ladder 0.620 \<dots> 0.616 of the down-shift example.
\<close>

definition orderAt :: "int \<Rightarrow> string \<Rightarrow> TrackedOrder" where
  "orderAt k h = \<lparr>price = of_int k / 1000, orderHash = h\<rparr>"

definition ladder620 :: "TrackedOrder list" where
  "ladder620 = [orderAt 620 ''a'', orderAt 619 ''b'', orderAt 618 ''c'', orderAt 617 ''d'',
                orderAt 616 ''e'']"

definition market620 :: TrackedMarket where
  "market620 = \<lparr>tm_id = 7, title = ''m'', orders = ladder620, cancelCount = 0, cooldownUntil = 0\<rparr>"

definition regularDetails :: "string \<Rightarrow> OrderDetails" where
  "regularDetails h =
     \<lparr>od_order = Some \<lparr>so_hash = h, so_makerAmount = None, so_takerAmount = None\<rparr>,
      od_id = ''1'', od_isNegRisk = False, od_isYieldBearing = False, od_status = ''OPEN'',
      od_makerAmount = None, od_takerAmount = None\<rparr>"

definition acceptingGateway :: "(rat \<times> rat) list \<Rightarrow> gateway" where
  "acceptingGateway book =
     \<lparr>gw_open = (\<lambda>h m p. Placed ''id'' (replicate (Suc (length h)) CHR ''n'') ''m''),
      gw_cancel = (\<lambda>h os nr yb. GroupOk),
      gw_orderbook = (\<lambda>h m. Some book),
      gw_order = (\<lambda>h x. Some (regularDetails x)),
      gw_openOrders = (\<lambda>h. None),
      gw_sell = (\<lambda>h. False),
      gw_now = (\<lambda>h. 1000)\<rparr>"

definition refusingGateway :: gateway where
  "refusingGateway = (acceptingGateway [])\<lparr>gw_cancel := (\<lambda>h os nr yb. GroupFailed)\<rparr>"

definition emptySys :: sys where
  "emptySys = \<lparr>storage = [], history = []\<rparr>"

text \<open>
  The orders that step 1 of the synchronisation appends for a list of API orders: one
  for each entry that has a hash which is not among the current hashes.
\<close>

definition untracked :: "string set \<Rightarrow> ApiOrder list \<Rightarrow> TrackedOrder list" where
  "untracked cur rs = map (\<lambda>a. \<lparr>price = priceFromAmounts a, orderHash = api_hash a\<rparr>)
      (filter (\<lambda>a. api_hash a \<noteq> [] \<and> api_hash a \<notin> cur) rs)"

text \<open>An open-order listing: two tracked orders, a new one at 0.61, one of another market.\<close>

definition listedOrder :: "nat \<Rightarrow> string \<Rightarrow> ApiOrder" where
  "listedOrder m h = \<lparr>api_id = ''1'', api_marketId = m, api_hash = h, api_makerAmount = Some 61,
                       api_takerAmount = Some 100, api_side = Some BUY\<rparr>"

definition openListing :: "ApiOrder list" where
  "openListing = [listedOrder 7 ''a'', listedOrder 7 ''c'', listedOrder 7 ''x'', listedOrder 8 ''y'']"

definition listingGateway :: gateway where
  "listingGateway = (acceptingGateway [])\<lparr>gw_openOrders := (\<lambda>h. Some openListing)\<rparr>"

text \<open>The events recorded between two states of a run, most recent first.\<close>

definition eventsSince :: "sys \<Rightarrow> sys \<Rightarrow> event list" where
  "eventsSince s0 s1 = take (length (history s1) - length (history s0)) (history s1)"

fun groupFailed :: "event \<Rightarrow> bool" where
  "groupFailed (EvCancelGroup grp nr yb r) = (r \<noteq> GroupOk)"
| "groupFailed _ = False"

text \<open>What a cancel group that succeeded does to storage; other events do nothing to it here.\<close>

fun storageEffect :: "event \<Rightarrow> StoredMarket list \<Rightarrow> StoredMarket list" where
  "storageEffect (EvCancelGroup grp nr yb GroupOk) st = removeOrdersFromStorage grp st"
| "storageEffect _ st = st"

text \<open>
  A market with a regular order and a negRisk order, both with their details in storage,
  and a gateway whose negRisk cancel group fails while the regular one succeeds.
\<close>

definition typedDetails :: "string \<Rightarrow> bool \<Rightarrow> OrderDetails" where
  "typedDetails h nr = (regularDetails h)\<lparr>od_isNegRisk := nr\<rparr>"

definition mixedMarket :: TrackedMarket where
  "mixedMarket = \<lparr>tm_id = 7, title = ''m'', orders = [orderAt 620 ''a'', orderAt 619 ''b''],
                   cancelCount = 0, cooldownUntil = 0\<rparr>"

definition mixedSys :: sys where
  "mixedSys = \<lparr>storage = [\<lparr>market_id = 7, market_title = ''m'', market_orders =
                    [\<lparr>st_orderId = ''1'', st_orderHash = ''a'', st_details = Some (typedDetails ''a'' False)\<rparr>,
                     \<lparr>st_orderId = ''2'', st_orderHash = ''b'', st_details = Some (typedDetails ''b'' True)\<rparr>]\<rparr>],
                history = []\<rparr>"

definition negRiskFailing :: gateway where
  "negRiskFailing = (acceptingGateway [])\<lparr>gw_cancel := (\<lambda>h os nr yb. if nr then GroupFailed else GroupOk)\<rparr>"

text \<open>
  How a run of cancel groups relates the state before to the state after: the history
  grew, the running \<^verbatim>\<open>allSuccess\<close> stayed true exactly if no new group failed, and storage
  lost the orders of the groups that succeeded.
\<close>

definition cancelRel :: "sys \<Rightarrow> bool \<Rightarrow> sys \<Rightarrow> bool \<Rightarrow> bool" where
  "cancelRel s a s' a' \<longleftrightarrow>
     history s' = eventsSince s s' @ history s
     \<and> (a' \<longleftrightarrow> a \<and> \<not> list_ex groupFailed (eventsSince s s'))
     \<and> storage s' = fold storageEffect (rev (eventsSince s s')) (storage s)"


text \<open>
  A well-formed ladder: prices strictly decreasing, each a multiple of the tick strictly
  between 0 and 1.
\<close>

definition ladderOk :: "TrackedOrder list \<Rightarrow> bool" where
  "ladderOk os \<longleftrightarrow>
     sorted_wrt (>) (map price os)
     \<and> list_all (\<lambda>x. tickAligned (price x) \<and> 0 < price x \<and> price x < 1) os"

text \<open>
  A gateway that cooperates: every order has details with a signed order, every cancel
  group succeeds, every order is accepted.
\<close>

definition detailsAvailable :: "gateway \<Rightarrow> bool" where
  "detailsAvailable g \<longleftrightarrow> (\<forall>h x. \<exists>d so. gw_order g h x = Some d \<and> od_order d = Some so)"

definition cancelsSucceed :: "gateway \<Rightarrow> bool" where
  "cancelsSucceed g \<longleftrightarrow> (\<forall>h os nr yb. gw_cancel g h os nr yb = GroupOk)"

definition opensSucceed :: "gateway \<Rightarrow> bool" where
  "opensSucceed g \<longleftrightarrow> (\<forall>h m p. gw_open g h m p \<noteq> OpenFailed)"

text \<open>Every bid of every book the gateway returns is priced at most 1.\<close>

definition bookWithinOne :: "gateway \<Rightarrow> bool" where
  "bookWithinOne g \<longleftrightarrow> (\<forall>h m bs. gw_orderbook g h m = Some bs \<longrightarrow> (\<forall>(p, q) \<in> set bs. p \<le> 1))"

text \<open>
  A listing with the five orders of the example ladder, an untracked order at 0.620 and
  an untracked order without amounts.
\<close>

definition crowdedListing :: "ApiOrder list" where
  "crowdedListing =
     [listedOrder 7 ''a'', listedOrder 7 ''b'', listedOrder 7 ''c'', listedOrder 7 ''d'',
      listedOrder 7 ''e'',
      (listedOrder 7 ''x'')\<lparr>api_makerAmount := Some 62\<rparr>,
      (listedOrder 7 ''z'')\<lparr>api_makerAmount := None\<rparr>]"

text \<open>A deep book at the very bottom of the price range: a single bid at 0.002.\<close>

definition floorBook :: "(rat \<times> rat) list" where
  "floorBook = [(2 / 1000, 1000000)]"


text \<open>A deep book far above the example ladder: bids of value above 600 from 0.630 down to 0.624.\<close>

definition book630 :: "(rat \<times> rat) list" where
  "book630 = [(630 / 1000, 1000), (629 / 1000, 1000), (628 / 1000, 1000), (627 / 1000, 1000),
              (626 / 1000, 1000), (625 / 1000, 1000), (624 / 1000, 1000)]"

section \<open>Properties: quantisation\<close>

lemma tickAligned_iff: "tickAligned p \<longleftrightarrow> (\<exists>k::int. p = of_int k / 1000)"
proof
  assume "tickAligned p"
  then have "of_int \<lfloor>p * 1000\<rfloor> = p * 1000" by (simp only: tickAligned_def)
  then have "of_int \<lfloor>p * 1000\<rfloor> / 1000 = p * 1000 / 1000" by (simp only:)
  also have "p * 1000 / 1000 = p" by simp
  finally have "p = of_int \<lfloor>p * 1000\<rfloor> / 1000" by (rule sym)
  then show "\<exists>k::int. p = of_int k / 1000" ..
next
  assume "\<exists>k::int. p = of_int k / 1000"
  then obtain k :: int where "p = of_int k / 1000" ..
  then have "p * 1000 = of_int k" by simp
  then show "tickAligned p" by (simp only: tickAligned_def floor_of_int)
qed

lemma toFixed3_of_int: "toFixed3 (of_int k / 1000) = of_int k / 1000"
proof (cases "k < 0")
  case True
  have "\<lfloor>(of_int (- k) :: rat) + 1 / 2\<rfloor> = - k"
    by (rule floor_unique) simp_all
  with True show ?thesis by (simp add: toFixed3_def)
next
  case False
  have "\<lfloor>(of_int k :: rat) + 1 / 2\<rfloor> = k"
    by (rule floor_unique) simp_all
  with False show ?thesis by (simp add: toFixed3_def)
qed

lemma toFixed3_id: "tickAligned p \<Longrightarrow> toFixed3 p = p"
  using toFixed3_of_int by (metis tickAligned_iff)

lemma tickAligned_toFixed3: "tickAligned (toFixed3 x)"
  unfolding tickAligned_iff toFixed3_def
  by (metis of_int_minus minus_divide_left)

lemma tickAligned_diff: "tickAligned p \<Longrightarrow> tickAligned (p - of_nat i * tick)"
proof -
  assume "tickAligned p"
  then obtain k :: int where "p = of_int k / 1000" by (auto simp only: tickAligned_iff)
  then have "p - of_nat i * tick = of_int (k - int i) / 1000"
    by (simp add: tick_def field_simps)
  then show ?thesis unfolding tickAligned_iff by blast
qed

lemma tickAligned_add: "tickAligned p \<Longrightarrow> tickAligned (p + of_nat i * tick)"
proof -
  assume "tickAligned p"
  then obtain k :: int where "p = of_int k / 1000" by (auto simp only: tickAligned_iff)
  then have "p + of_nat i * tick = of_int (k + int i) / 1000"
    by (simp add: tick_def field_simps)
  then show ?thesis unfolding tickAligned_iff by blast
qed

lemma toFixed3_diff: "tickAligned p \<Longrightarrow> toFixed3 (p - of_nat i * tick) = p - of_nat i * tick"
  by (simp add: toFixed3_id tickAligned_diff)

lemma toFixed3_add: "tickAligned p \<Longrightarrow> toFixed3 (p + of_nat i * tick) = p + of_nat i * tick"
  by (simp add: toFixed3_id tickAligned_add)

lemma toFixed3_minus_tick: "tickAligned p \<Longrightarrow> toFixed3 (p - tick) = p - tick"
  using toFixed3_diff[of p 1] by simp

lemma toFixed3_plus_tick: "tickAligned p \<Longrightarrow> toFixed3 (p + tick) = p + tick"
  using toFixed3_add[of p 1] by simp

lemma aligned_gap: "tickAligned p \<Longrightarrow> tickAligned q \<Longrightarrow> p < q \<Longrightarrow> p + tick \<le> q"
proof -
  assume "tickAligned p" "tickAligned q" "p < q"
  then obtain k l :: int where kl: "p = of_int k / 1000" "q = of_int l / 1000"
    by (auto simp only: tickAligned_iff)
  with \<open>p < q\<close> have "k < l" by simp
  then have "k + 1 \<le> l" by simp
  then have "(of_int (k + 1) :: rat) \<le> of_int l" by (simp only: of_int_le_iff)
  then show ?thesis using kl by (simp add: tick_def field_simps)
qed

section \<open>Properties: batch cancellation\<close>

lemma fetchDetails_nonempty:
  "fetchDetails g m sel s = (dl, s1) \<Longrightarrow> dl \<noteq> [] \<Longrightarrow> sel \<noteq> []"
  by (cases sel) auto

text \<open>
  C10. Let \<open>sel\<close> be the orders a call of \<^verbatim>\<open>cancelTopOrders\<close> (with \<open>count\<close> within the list)
  or \<^verbatim>\<open>cancelBottomOrders\<close> selects, and \<open>dl\<close> the non-empty batch built from those of them
  whose details were found. If the gateway's \<^verbatim>\<open>cancelOrders\<close> reports overall failure, the
  call returns 0 and the tracked market is exactly as before. If it reports overall
  success, the call returns the number of distinct hashes in the batch, the tracked list
  is the old one without the orders whose hash is in the batch, and \<open>cancelCount\<close> has
  grown by that number.
\<close>

theorem cancel_outcome:
  assumes sel: "f = cancelTopOrders \<and> count \<le> length (orders t) \<and> sel = take count (orders t)
              \<or> f = cancelBottomOrders \<and> sel = take count (rev (orders t))"
    and fetch: "fetchDetails g (tm_id t) sel s = (dl, s1)"
    and sent: "dl \<noteq> []"
  shows "(cancelOrders g dl s1 = (Inr False, s2) \<longrightarrow> f g t count s = (Inr 0, t, s2))
       \<and> (cancelOrders g dl s1 = (Inr True, s2) \<longrightarrow>
            (\<exists>t'. f g t count s = (Inr (card (set (map cd_hash dl))), t', s2)
                 \<and> orders t' = filter (\<lambda>x. orderHash x \<notin> set (map cd_hash dl)) (orders t)
                 \<and> cancelCount t' = cancelCount t + card (set (map cd_hash dl))))"
proof -
  have ne: "sel \<noteq> []" using fetchDetails_nonempty[OF fetch sent] .
  have run: "f g t count s = batchCancel g t dl s1"
    using sel
  proof
    assume a: "f = cancelTopOrders \<and> count \<le> length (orders t) \<and> sel = take count (orders t)"
    with ne have "count \<noteq> 0" "orders t \<noteq> []" by auto
    with a fetch show ?thesis by (simp add: cancelTopOrders_def)
  next
    assume a: "f = cancelBottomOrders \<and> sel = take count (rev (orders t))"
    with ne fetch show ?thesis by (simp add: cancelBottomOrders_def)
  qed
  show ?thesis
    using sent by (auto simp: run batchCancel_def incrementCancelCount_def Let_def)
qed

theorem cancel_outcome_witness:
  "(\<exists>t' s2. cancelTopOrders (acceptingGateway []) market620 3 emptySys = (Inr 3, t', s2)
        \<and> map orderHash (orders t') = [''d'', ''e''] \<and> cancelCount t' = 3)
   \<and> (\<exists>s2. cancelBottomOrders refusingGateway market620 2 emptySys = (Inr 0, market620, s2))"
proof -
  let ?g = "acceptingGateway []"
  let ?sel = "take 3 (orders market620)"
  let ?fd = "fetchDetails ?g (tm_id market620) ?sel emptySys"
  have a: "cancelTopOrders = cancelTopOrders \<and> 3 \<le> length (orders market620) \<and> ?sel = take 3 (orders market620)
           \<or> cancelTopOrders = cancelBottomOrders \<and> ?sel = take 3 (rev (orders market620))"
    by (simp add: market620_def ladder620_def)
  have b: "?fd = (fst ?fd, snd ?fd)" by simp
  have c: "fst ?fd \<noteq> []" by code_simp
  let ?co = "cancelOrders ?g (fst ?fd) (snd ?fd)"
  have d: "?co = (Inr True, snd ?co)" by code_simp
  have e: "card (set (map cd_hash (fst ?fd))) = 3" by code_simp
  have f: "filter (\<lambda>x. orderHash x \<notin> set (map cd_hash (fst ?fd))) (orders market620) = [orderAt 617 ''d'', orderAt 616 ''e'']"
    by code_simp
  from cancel_outcome[OF a b c, of "snd ?co"] d e f
  have top: "\<exists>t' s2. cancelTopOrders ?g market620 3 emptySys = (Inr 3, t', s2)
        \<and> map orderHash (orders t') = [''d'', ''e''] \<and> cancelCount t' = 3"
    by (auto simp: orderAt_def market620_def)
  let ?r = refusingGateway
  let ?sel2 = "take 2 (rev (orders market620))"
  let ?fd2 = "fetchDetails ?r (tm_id market620) ?sel2 emptySys"
  have a2: "cancelBottomOrders = cancelTopOrders \<and> 2 \<le> length (orders market620) \<and> ?sel2 = take 2 (orders market620)
           \<or> cancelBottomOrders = cancelBottomOrders \<and> ?sel2 = take 2 (rev (orders market620))"
    by simp
  have b2: "?fd2 = (fst ?fd2, snd ?fd2)" by simp
  have c2: "fst ?fd2 \<noteq> []" by code_simp
  let ?co2 = "cancelOrders ?r (fst ?fd2) (snd ?fd2)"
  have d2: "?co2 = (Inr False, snd ?co2)" by code_simp
  from cancel_outcome[OF a2 b2 c2, of "snd ?co2"] d2
  have bot: "\<exists>s2. cancelBottomOrders ?r market620 2 emptySys = (Inr 0, market620, s2)"
    by blast
  from top bot show ?thesis by blast
qed

section \<open>Properties: reconciliation\<close>

lemma sortDesc_descending: "sorted_wrt (\<ge>) (map price (sortDesc xs))"
proof -
  have "sorted (map (\<lambda>x. - price x) (sortDesc xs))"
    unfolding sortDesc_def by (rule sorted_sort_key)
  then show ?thesis by (simp add: sorted_wrt_map)
qed

lemma set_sortDesc: "set (sortDesc xs) = set xs"
  by (simp add: sortDesc_def)

lemma length_sortDesc: "length (sortDesc xs) = length xs"
  by (simp add: sortDesc_def)

lemma addUntracked_orders:
  "fst (addUntracked cur m ttl rs os H st) = os @ untracked cur rs"
  by (induction rs arbitrary: os H st) (auto simp: untracked_def)

lemma addUntracked_hashes:
  "fst (snd (addUntracked cur m ttl rs os H st)) = H \<union> {api_hash a | a. a \<in> set rs \<and> api_hash a \<noteq> []}"
  by (induction rs arbitrary: os H st) auto

lemma syncMarket_orders:
  "orders (fst (syncMarket A t st)) =
     sortDesc (filter (\<lambda>x. orderHash x \<in> {api_hash a | a. a \<in> set (marketApiOrders A (tm_id t)) \<and> api_hash a \<noteq> []})
                 (orders t @ untracked (set (map orderHash (orders t))) (marketApiOrders A (tm_id t))))"
  (is "_ = sortDesc (filter ?P (?os @ ?new))")
  by (simp add: syncMarket_def Let_def case_prod_beta addUntracked_orders addUntracked_hashes
        del: filter_append)

lemma syncMarket_rest:
  "tm_id (fst (syncMarket A t st)) = tm_id t \<and> title (fst (syncMarket A t st)) = title t
   \<and> cancelCount (fst (syncMarket A t st)) = cancelCount t
   \<and> cooldownUntil (fst (syncMarket A t st)) = cooldownUntil t"
  by (simp add: syncMarket_def case_prod_beta)

lemma syncMarket_fst_indep: "fst (syncMarket A t st) = fst (syncMarket A t st')"
proof -
  have "orders (fst (syncMarket A t st)) = orders (fst (syncMarket A t st'))"
    by (simp only: syncMarket_orders)
  moreover have "fst (syncMarket A t st) = t\<lparr>orders := orders (fst (syncMarket A t st))\<rparr>"
    by (simp add: syncMarket_def case_prod_beta)
  moreover have "fst (syncMarket A t st') = t\<lparr>orders := orders (fst (syncMarket A t st'))\<rparr>"
    by (simp add: syncMarket_def case_prod_beta)
  ultimately show ?thesis by simp
qed

lemma syncAll_length: "length (fst (syncAll A ms st)) = length ms"
  by (induction ms arbitrary: st) (simp_all add: case_prod_beta)

lemma syncAll_nth:
  "i < length ms \<Longrightarrow> fst (syncAll A ms st) ! i = fst (syncMarket A (ms ! i) [])"
proof (induction ms arbitrary: st i)
  case Nil
  then show ?case by simp
next
  case (Cons t ms)
  show ?case
  proof (cases i)
    case 0
    then show ?thesis using syncMarket_fst_indep[of A t st "[]"] by (simp add: case_prod_beta)
  next
    case (Suc j)
    with Cons show ?thesis by (simp add: case_prod_beta)
  qed
qed

lemma syncOpenOrders_listing:
  "gw_openOrders g (history s) = Some A \<Longrightarrow>
   fst (syncOpenOrders g ms s) = fst (syncAll A ms (storage s))"
  by (simp add: syncOpenOrders_def getOpenOrdersRecursively_def case_prod_beta)

lemma marketApiOrders_nonzero:
  "m \<noteq> 0 \<Longrightarrow> marketApiOrders A m = filter (\<lambda>a. api_marketId a = m) A"
  by (auto simp: marketApiOrders_def intro: filter_cong)

text \<open>
  C1. When the open-order listing succeeds, the pass keeps the number of tracked markets,
  and for every tracked market with a non-zero id: the set of tracked hashes afterwards is
  the previously tracked ones that the gateway lists for this market, together with the
  listed ones that were not tracked (a listed order counts when it carries a hash); the
  list is the kept orders followed by one new order per untracked listed order, priced
  from its maker and taker amounts, sorted by descending price; the cancel count and the
  cooldown are untouched.
\<close>

theorem reconciliation_tracked_set:
  assumes listing: "gw_openOrders g (history s) = Some allOpenOrders"
    and i: "i < length trackedMarkets"
    and id: "tm_id (trackedMarkets ! i) \<noteq> 0"
  shows "let before = trackedMarkets ! i;
             after = fst (syncOpenOrders g trackedMarkets s) ! i;
             previous = set (map orderHash (orders before));
             remote = filter (\<lambda>a. api_marketId a = tm_id before \<and> api_hash a \<noteq> []) allOpenOrders;
             gatewayOpen = set (map api_hash remote)
         in length (fst (syncOpenOrders g trackedMarkets s)) = length trackedMarkets
          \<and> set (map orderHash (orders after)) = (previous \<inter> gatewayOpen) \<union> (gatewayOpen - previous)
          \<and> orders after =
              sortDesc (filter (\<lambda>x. orderHash x \<in> gatewayOpen) (orders before)
                        @ map (\<lambda>a. \<lparr>price = priceFromAmounts a, orderHash = api_hash a\<rparr>)
                            (filter (\<lambda>a. api_hash a \<notin> previous) remote))
          \<and> sorted_wrt (\<ge>) (map price (orders after))
          \<and> cancelCount after = cancelCount before
          \<and> cooldownUntil after = cooldownUntil before"
proof -
  let ?before = "trackedMarkets ! i"
  let ?after = "fst (syncOpenOrders g trackedMarkets s) ! i"
  let ?previous = "set (map orderHash (orders ?before))"
  let ?remote = "filter (\<lambda>a. api_marketId a = tm_id ?before \<and> api_hash a \<noteq> []) allOpenOrders"
  let ?G = "set (map api_hash ?remote)"
  let ?new = "map (\<lambda>a. \<lparr>price = priceFromAmounts a, orderHash = api_hash a\<rparr>)
                            (filter (\<lambda>a. api_hash a \<notin> ?previous) ?remote)"
  have after: "?after = fst (syncMarket allOpenOrders ?before [])"
    using syncOpenOrders_listing[OF listing] syncAll_nth[OF i] by simp
  have len: "length (fst (syncOpenOrders g trackedMarkets s)) = length trackedMarkets"
    using syncOpenOrders_listing[OF listing] syncAll_length by simp
  have G: "{api_hash a | a. a \<in> set (marketApiOrders allOpenOrders (tm_id ?before)) \<and> api_hash a \<noteq> []} = ?G"
    by (auto simp: marketApiOrders_nonzero[OF id])
  have new: "untracked ?previous (marketApiOrders allOpenOrders (tm_id ?before)) = ?new"
    by (simp add: untracked_def marketApiOrders_nonzero[OF id] conj_commute conj_left_commute cong: conj_cong)
  have newin: "filter (\<lambda>x. orderHash x \<in> ?G) ?new = ?new"
    by (rule filter_True) auto
  have ord: "orders ?after = sortDesc (filter (\<lambda>x. orderHash x \<in> ?G) (orders ?before) @ ?new)"
    unfolding after syncMarket_orders G new using newin by simp
  have kept: "orderHash ` set (filter (\<lambda>x. orderHash x \<in> ?G) (orders ?before)) = ?previous \<inter> ?G"
    by auto
  have "map orderHash ?new = filter (\<lambda>h. h \<notin> ?previous) (map api_hash ?remote)"
    by (simp add: filter_map comp_def)
  then have "set (map orderHash ?new) = set (filter (\<lambda>h. h \<notin> ?previous) (map api_hash ?remote))"
    by (simp only:)
  also have "\<dots> = ?G - ?previous"
    unfolding set_filter by blast
  finally have added: "orderHash ` set ?new = ?G - ?previous"
    by (simp only: set_map)
  have "set (map orderHash (orders ?after))
          = orderHash ` (set (filter (\<lambda>x. orderHash x \<in> ?G) (orders ?before)) \<union> set ?new)"
    by (simp only: ord set_map set_sortDesc set_append)
  also have "\<dots> = orderHash ` set (filter (\<lambda>x. orderHash x \<in> ?G) (orders ?before))
                    \<union> orderHash ` set ?new"
    by (rule image_Un)
  also have "\<dots> = (?previous \<inter> ?G) \<union> (?G - ?previous)"
    by (simp only: kept added)
  finally have hashes:
    "set (map orderHash (orders ?after)) = (?previous \<inter> ?G) \<union> (?G - ?previous)" .
  have srt: "sorted_wrt (\<ge>) (map price (orders ?after))"
    unfolding ord by (rule sortDesc_descending)
  have rest: "cancelCount ?after = cancelCount ?before \<and> cooldownUntil ?after = cooldownUntil ?before"
    unfolding after using syncMarket_rest by simp
  show ?thesis
    unfolding Let_def using len hashes ord srt rest by blast
qed

theorem reconciliation_tracked_set_witness:
  "gw_openOrders listingGateway (history emptySys) = Some openListing
   \<and> 0 < length [market620] \<and> tm_id ([market620] ! 0) \<noteq> 0
   \<and> set (map orderHash (orders (fst (syncOpenOrders listingGateway [market620] emptySys) ! 0)))
       = {''a'', ''c'', ''x''}
   \<and> map price (orders (fst (syncOpenOrders listingGateway [market620] emptySys) ! 0))
       = [620 / 1000, 618 / 1000, 610 / 1000]"
proof -
  have h1: "gw_openOrders listingGateway (history emptySys) = Some openListing"
    by (simp add: listingGateway_def)
  have h2: "0 < length [market620]" by simp
  have h3: "tm_id ([market620] ! 0) \<noteq> 0" by (simp add: market620_def)
  note r = reconciliation_tracked_set[OF h1 h2 h3, unfolded Let_def]
  have a: "set (map orderHash (orders ([market620] ! 0))) \<inter>
        set (map api_hash (filter (\<lambda>a. api_marketId a = tm_id ([market620] ! 0) \<and> api_hash a \<noteq> []) openListing))
        \<union> (set (map api_hash (filter (\<lambda>a. api_marketId a = tm_id ([market620] ! 0) \<and> api_hash a \<noteq> []) openListing))
           - set (map orderHash (orders ([market620] ! 0)))) = {''a'', ''c'', ''x''}"
    by code_simp
  have b: "map price (sortDesc (filter (\<lambda>x. orderHash x \<in> set (map api_hash (filter (\<lambda>a. api_marketId a = tm_id ([market620] ! 0) \<and> api_hash a \<noteq> []) openListing))) (orders ([market620] ! 0))
                        @ map (\<lambda>a. \<lparr>price = priceFromAmounts a, orderHash = api_hash a\<rparr>)
                            (filter (\<lambda>a. api_hash a \<notin> set (map orderHash (orders ([market620] ! 0)))) (filter (\<lambda>a. api_marketId a = tm_id ([market620] ! 0) \<and> api_hash a \<noteq> []) openListing))))
       = [620 / 1000, 618 / 1000, 610 / 1000]"
    by code_simp
  from r have c: "set (map orderHash (orders (fst (syncOpenOrders listingGateway [market620] emptySys) ! 0)))
       = {''a'', ''c'', ''x''}"
    using a by (elim conjE) (rule trans)
  from r have d: "map price (orders (fst (syncOpenOrders listingGateway [market620] emptySys) ! 0))
       = [620 / 1000, 618 / 1000, 610 / 1000]"
    using b by (elim conjE) (simp only:)
  from h1 h2 h3 c d show ?thesis by blast
qed

section \<open>Properties: partial batch cancellation\<close>

lemma cancelRel_iff:
  "cancelRel s a s' a' \<longleftrightarrow>
     (\<exists>new. history s' = new @ history s
        \<and> (a' \<longleftrightarrow> a \<and> \<not> (\<exists>e \<in> set new. groupFailed e))
        \<and> storage s' = fold storageEffect (rev new) (storage s))"
  by (auto simp: cancelRel_def eventsSince_def list_ex_iff)

lemma cancelRel_refl: "cancelRel s a s a"
  by (simp add: cancelRel_iff)

lemma cancelRel_trans:
  "cancelRel s a s1 a1 \<Longrightarrow> cancelRel s1 a1 s2 a2 \<Longrightarrow> cancelRel s a s2 a2"
  unfolding cancelRel_iff
proof -
  assume "\<exists>new. history s1 = new @ history s \<and> (a1 \<longleftrightarrow> a \<and> \<not> (\<exists>e \<in> set new. groupFailed e))
        \<and> storage s1 = fold storageEffect (rev new) (storage s)"
  then obtain n1 where n1: "history s1 = n1 @ history s" "a1 \<longleftrightarrow> a \<and> \<not> (\<exists>e \<in> set n1. groupFailed e)"
     "storage s1 = fold storageEffect (rev n1) (storage s)" by blast
  assume "\<exists>new. history s2 = new @ history s1 \<and> (a2 \<longleftrightarrow> a1 \<and> \<not> (\<exists>e \<in> set new. groupFailed e))
        \<and> storage s2 = fold storageEffect (rev new) (storage s1)"
  then obtain n2 where n2: "history s2 = n2 @ history s1" "a2 \<longleftrightarrow> a1 \<and> \<not> (\<exists>e \<in> set n2. groupFailed e)"
     "storage s2 = fold storageEffect (rev n2) (storage s1)" by blast
  have "history s2 = (n2 @ n1) @ history s" using n1 n2 by simp
  moreover have "a2 \<longleftrightarrow> a \<and> \<not> (\<exists>e \<in> set (n2 @ n1). groupFailed e)" using n1 n2 by auto
  moreover have "storage s2 = fold storageEffect (rev (n2 @ n1)) (storage s)" using n1 n2 by simp
  ultimately show "\<exists>new. history s2 = new @ history s \<and> (a2 \<longleftrightarrow> a \<and> \<not> (\<exists>e \<in> set new. groupFailed e))
        \<and> storage s2 = fold storageEffect (rev new) (storage s)" by blast
qed

lemma cancelGroup_rel:
  "cancelGroup g c grp nr yb a s = (Inr a', s') \<Longrightarrow> cancelRel s a s' a'"
  by (auto simp: cancelGroup_def cancelRel_iff Let_def split: if_splits group_result.splits)

lemma cancelOrders_rel:
  assumes "cancelOrders g os s = (Inr ok, s')"
  shows "cancelRel s True s' ok"
proof (cases "os = []")
  case True
  with assms show ?thesis by (simp add: cancelOrders_def cancelRel_refl)
next
  case False
  from assms False obtain a1 s1 a2 s2 a3 s3 where
    g1: "cancelGroup g False (groupOf False False os) False False True s = (Inr a1, s1)" and
    g2: "cancelGroup g False (groupOf True False os) True False a1 s1 = (Inr a2, s2)" and
    g3: "cancelGroup g True (groupOf False True os) False True a2 s2 = (Inr a3, s3)" and
    g4: "cancelGroup g False (groupOf True True os) True True a3 s3 = (Inr ok, s')"
    by (auto simp: cancelOrders_def split: prod.splits sum.splits)
  show ?thesis
    using cancelRel_trans[OF cancelRel_trans[OF cancelRel_trans[OF cancelGroup_rel[OF g1] cancelGroup_rel[OF g2]]
      cancelGroup_rel[OF g3]] cancelGroup_rel[OF g4]] .
qed

lemma cancelRel_events:
  "cancelRel s a s' a' \<Longrightarrow>
     (a' \<longleftrightarrow> a \<and> \<not> (\<exists>e \<in> set (eventsSince s s'). groupFailed e))
     \<and> storage s' = fold storageEffect (rev (eventsSince s s')) (storage s)"
  by (auto simp: cancelRel_def list_ex_iff)

lemma batchCancel_failed:
  "dl \<noteq> [] \<Longrightarrow> cancelOrders g dl s1 = (Inr False, s2) \<Longrightarrow> batchCancel g t dl s1 = (Inr 0, t, s2)"
  by (simp add: batchCancel_def)

lemma cancel_runs_batch:
  assumes sel: "f = cancelTopOrders \<and> count \<le> length (orders t) \<and> sel = take count (orders t)
              \<or> f = cancelBottomOrders \<and> sel = take count (rev (orders t))"
    and fetch: "fetchDetails g (tm_id t) sel s = (dl, s1)"
    and sent: "dl \<noteq> []"
  shows "f g t count s = batchCancel g t dl s1"
proof -
  have ne: "sel \<noteq> []" using fetchDetails_nonempty[OF fetch sent] .
  show ?thesis
    using sel
  proof
    assume a: "f = cancelTopOrders \<and> count \<le> length (orders t) \<and> sel = take count (orders t)"
    with ne have "count \<noteq> 0" "orders t \<noteq> []" by auto
    with a fetch show ?thesis by (simp add: cancelTopOrders_def)
  next
    assume a: "f = cancelBottomOrders \<and> sel = take count (rev (orders t))"
    with ne fetch show ?thesis by (simp add: cancelBottomOrders_def)
  qed
qed

text \<open>
  C8, as the code has it. \<^verbatim>\<open>cancelOrders\<close> reports overall success exactly if no sub-group
  failed, and storage loses the orders of the sub-groups that succeeded (each by the hash
  of its signed order) and no others. When a sub-group failed, the cancel function of
  the manager returns 0 and leaves the tracked market as it was: every attempted order
  stays in the tracked list, also those of the sub-groups that succeeded, and
  \<open>cancelCount\<close> does not move.
\<close>

theorem partial_cancel_keeps_tracking:
  assumes sel: "f = cancelTopOrders \<and> count \<le> length (orders t) \<and> sel = take count (orders t)
              \<or> f = cancelBottomOrders \<and> sel = take count (rev (orders t))"
    and fetch: "fetchDetails g (tm_id t) sel s = (dl, s1)"
    and sent: "dl \<noteq> []"
    and batch: "cancelOrders g dl s1 = (Inr ok, s2)"
  shows "(ok \<longleftrightarrow> \<not> (\<exists>e \<in> set (eventsSince s1 s2). groupFailed e))
       \<and> storage s2 = fold storageEffect (rev (eventsSince s1 s2)) (storage s1)
       \<and> (\<not> ok \<longrightarrow> f g t count s = (Inr 0, t, s2))"
proof -
  from cancelRel_events[OF cancelOrders_rel[OF batch]]
  have a: "(ok \<longleftrightarrow> \<not> (\<exists>e \<in> set (eventsSince s1 s2). groupFailed e))"
    and b: "storage s2 = fold storageEffect (rev (eventsSince s1 s2)) (storage s1)" by auto
  have c: "\<not> ok \<longrightarrow> f g t count s = (Inr 0, t, s2)"
    using cancel_runs_batch[OF sel fetch sent] batchCancel_failed[OF sent] batch by auto
  from a b c show ?thesis by blast
qed

theorem partial_cancel_keeps_tracking_witness:
  "fst (fetchDetails negRiskFailing (tm_id mixedMarket) (take 2 (orders mixedMarket)) mixedSys) \<noteq> []
   \<and> fst (cancelOrders negRiskFailing
           (fst (fetchDetails negRiskFailing (tm_id mixedMarket) (take 2 (orders mixedMarket)) mixedSys))
           (snd (fetchDetails negRiskFailing (tm_id mixedMarket) (take 2 (orders mixedMarket)) mixedSys)))
       = Inr False
   \<and> cancelTopOrders negRiskFailing mixedMarket 2 mixedSys
       = (Inr 0, mixedMarket,
          snd (cancelOrders negRiskFailing
           (fst (fetchDetails negRiskFailing (tm_id mixedMarket) (take 2 (orders mixedMarket)) mixedSys))
           (snd (fetchDetails negRiskFailing (tm_id mixedMarket) (take 2 (orders mixedMarket)) mixedSys))))"
proof -
  let ?g = negRiskFailing
  let ?sel = "take 2 (orders mixedMarket)"
  let ?fd = "fetchDetails ?g (tm_id mixedMarket) ?sel mixedSys"
  let ?co = "cancelOrders ?g (fst ?fd) (snd ?fd)"
  have a: "cancelTopOrders = cancelTopOrders \<and> 2 \<le> length (orders mixedMarket) \<and> ?sel = take 2 (orders mixedMarket)
           \<or> cancelTopOrders = cancelBottomOrders \<and> ?sel = take 2 (rev (orders mixedMarket))"
    by (simp add: mixedMarket_def)
  have b: "?fd = (fst ?fd, snd ?fd)" by simp
  have c: "fst ?fd \<noteq> []" by code_simp
  have d: "fst ?co = Inr False" by code_simp
  then have e: "?co = (Inr False, snd ?co)" by (metis prod.collapse)
  from partial_cancel_keeps_tracking[OF a b c e]
  have "cancelTopOrders ?g mixedMarket 2 mixedSys = (Inr 0, mixedMarket, snd ?co)" by blast
  with c d show ?thesis by blast
qed

text \<open>
  C8 as stated fails: the regular sub-group reports success, its order leaves storage, and
  the order is still tracked after the call.
\<close>

theorem partial_cancel_counterexample:
  "fst (cancelTopOrders negRiskFailing mixedMarket 2 mixedSys) = Inr 0
     \<and> EvCancelGroup [\<lparr>so_hash = ''a'', so_makerAmount = None, so_takerAmount = None\<rparr>] False False GroupOk
         \<in> set (history (snd (snd (cancelTopOrders negRiskFailing mixedMarket 2 mixedSys))))
     \<and> ''a'' \<in> set (map orderHash (orders (fst (snd (cancelTopOrders negRiskFailing mixedMarket 2 mixedSys)))))
     \<and> ''a'' \<notin> storedHashes (storage (snd (snd (cancelTopOrders negRiskFailing mixedMarket 2 mixedSys))))"
  by code_simp

section \<open>Properties: the ladder initializer\<close>

lemma depthScan_Some:
  "depthScan cum i bs = Some k \<Longrightarrow>
     i \<le> k \<and> k < 6 \<and> k - i < length bs
     \<and> cum + sum_list (map bid_value (take (Suc (k - i)) bs)) > MIN_DEPTH_CHECK_USD
     \<and> (\<forall>j < k - i. cum + sum_list (map bid_value (take (Suc j) bs)) \<le> MIN_DEPTH_CHECK_USD)"
proof (induction cum i bs rule: depthScan.induct)
  case (1 cum i)
  then show ?case by simp
next
  case (2 cum i b bs)
  show ?case
  proof (cases "i < 6 \<and> \<not> cum + bid_value b > MIN_DEPTH_CHECK_USD")
    case False
    with "2.prems" show ?thesis by (auto split: if_splits)
  next
    case True
    with "2.prems" have rec: "depthScan (cum + bid_value b) (Suc i) bs = Some k" by simp
    from True have a: "i < 6" and b: "\<not> MIN_DEPTH_CHECK_USD < cum + bid_value b" by auto
    from "2.IH"[OF a b rec]
    have ih: "Suc i \<le> k" "k < 6" "k - Suc i < length bs"
      "cum + bid_value b + sum_list (map bid_value (take (Suc (k - Suc i)) bs)) > MIN_DEPTH_CHECK_USD"
      "\<forall>j < k - Suc i. cum + bid_value b + sum_list (map bid_value (take (Suc j) bs)) \<le> MIN_DEPTH_CHECK_USD"
      by auto
    from ih(1) have ki: "k - i = Suc (k - Suc i)" by simp
    have "\<forall>j < k - i. cum + sum_list (map bid_value (take (Suc j) (b # bs))) \<le> MIN_DEPTH_CHECK_USD"
    proof (intro allI impI)
      fix j assume j: "j < k - i"
      show "cum + sum_list (map bid_value (take (Suc j) (b # bs))) \<le> MIN_DEPTH_CHECK_USD"
      proof (cases j)
        case 0
        with b show ?thesis by simp
      next
        case (Suc j')
        with j ki have "j' < k - Suc i" by simp
        with ih(5) Suc show ?thesis by (simp add: add.assoc)
      qed
    qed
    with ih ki show ?thesis by (simp add: add.assoc)
  qed
qed



lemma targetLoop_nth:
  "tickAligned sp \<Longrightarrow> j < length (targetLoop sp i n) \<Longrightarrow>
     targetLoop sp i n ! j = sp - of_nat (i + j) * tick \<and> 0 < sp - of_nat (i + j) * tick"
proof (induction n arbitrary: i j)
  case 0
  then show ?case by simp
next
  case (Suc n)
  from Suc.prems(2) have pos: "sp - of_nat i * tick > 0" by (auto split: if_splits)
  show ?case
  proof (cases j)
    case 0
    with pos Suc.prems(1) show ?thesis by (simp add: toFixed3_diff)
  next
    case (Suc j')
    with Suc.prems pos have "j' < length (targetLoop sp (Suc i) n)" by simp
    from Suc.IH[OF Suc.prems(1) this] Suc pos show ?thesis by simp
  qed
qed


lemma descending_by_ticks:
  assumes "\<forall>j < length ps. ps ! j = a - of_nat j * tick"
  shows "sorted_wrt (>) ps"
proof -
  have "\<And>i j. i < j \<Longrightarrow> j < length ps \<Longrightarrow> ps ! i > ps ! j"
  proof -
    fix i j :: nat assume ij: "i < j" "j < length ps"
    then have "(of_nat i :: rat) < of_nat j" by simp
    then have "a - of_nat j * tick < a - of_nat i * tick" by (simp add: tick_def)
    with ij assms show "ps ! i > ps ! j" by simp
  qed
  then show ?thesis by (simp add: sorted_wrt_iff_nth_less)
qed

lemma openRequests_Cons: "openRequests (s\<lparr>history := e # history s\<rparr>) = openRequests s @ openPrice e"
  by (simp add: openRequests_def)

lemma openRequests_storage [simp]: "openRequests (s\<lparr>storage := st\<rparr>) = openRequests s"
  by (simp add: openRequests_def)



lemma openRequests_openOrder [simp]:
  "openRequests (snd (openOrder g m p s)) = openRequests s @ [p]"
  by (simp add: openOrder_def Let_def openRequests_Cons split: open_result.splits)


lemma openRequests_placeAll [simp]:
  "openRequests (snd (placeAll g m ps acc s)) = openRequests s @ ps"
proof (induction ps arbitrary: acc s)
  case Nil
  then show ?case by simp
next
  case (Cons p ps)
  obtain r s1 where o: "openOrder g m p s = (r, s1)" by fastforce
  then have s1: "openRequests s1 = openRequests s @ [p]"
    using openRequests_openOrder[of g m p s] by simp
  show ?case using Cons.IH s1 by (simp add: o split: open_result.splits)
qed




section \<open>Properties: sorting and cancelling\<close>

lemma sortDesc_snoc:
  "sorted_wrt (\<ge>) (map price os) \<Longrightarrow> \<forall>x \<in> set os. price x \<ge> price y \<Longrightarrow>
     sortDesc (os @ [y]) = os @ [y]"
proof (induction os)
  case Nil
  then show ?case by (simp add: sortDesc_def)
next
  case (Cons a os)
  then have ih: "sortDesc (os @ [y]) = os @ [y]" by simp
  have "\<forall>x \<in> set (os @ [y]). - price a \<le> - price x" using Cons.prems by auto
  then have "insort_key (\<lambda>x. - price x) a (os @ [y]) = a # os @ [y]"
    by (rule insort_is_Cons)
  with ih show ?case by (simp add: sortDesc_def)
qed

lemma sortDesc_sorted_id:
  "sorted_wrt (\<ge>) (map price os) \<Longrightarrow> sortDesc os = os"
proof -
  assume "sorted_wrt (\<ge>) (map price os)"
  then have "sorted (map (\<lambda>x. - price x) os)" by (simp add: sorted_wrt_map)
  then show ?thesis unfolding sortDesc_def by (rule sort_key_id_if_sorted)
qed

lemma sortDesc_Cons:
  "sorted_wrt (\<ge>) (map price os) \<Longrightarrow> \<forall>x \<in> set os. price y \<ge> price x \<Longrightarrow>
     sortDesc (y # os) = y # os"
  by (rule sortDesc_sorted_id) auto

lemma strict_imp_desc: "sorted_wrt (>) (ps :: rat list) \<Longrightarrow> sorted_wrt (\<ge>) ps"
  by (erule sorted_wrt_mono_rel[rotated]) simp

lemma fetchDetails_hashes:
  "detailsAvailable g \<Longrightarrow> map cd_hash (fst (fetchDetails g m sel s)) = map orderHash sel"
proof (induction sel arbitrary: s)
  case Nil
  then show ?case by simp
next
  case (Cons a sel)
  obtain d s1 where r: "resolveDetails g m a s = (d, s1)" by fastforce
  from Cons.prems obtain dd so where api: "gw_order g (history s) (orderHash a) = Some dd" "od_order dd = Some so"
    unfolding detailsAvailable_def by blast
  have "\<exists>x. d = Some x \<and> cd_hash x = orderHash a"
    using r api
    by (auto simp: resolveDetails_def getOrderByHash_def Let_def split: option.splits if_splits prod.splits)
  then obtain x where x: "d = Some x" "cd_hash x = orderHash a" by blast
  show ?case using Cons.IH[OF Cons.prems, of s1] r x by (simp add: case_prod_beta)
qed

lemma cancelGroup_ok:
  "cancelsSucceed g \<Longrightarrow> fst (cancelGroup g c grp nr yb a s) = Inr a"
  by (simp add: cancelGroup_def cancelsSucceed_def Let_def)

lemma cancelOrders_ok:
  assumes "cancelsSucceed g"
  shows "fst (cancelOrders g os s) = Inr True"
proof -
  note ok = cancelGroup_ok[OF assms]
  obtain r1 s1 where g1: "cancelGroup g False (groupOf False False os) False False True s = (r1, s1)" by fastforce
  with ok[of False "groupOf False False os" False False True s] have r1: "r1 = Inr True" by simp
  obtain r2 s2 where g2: "cancelGroup g False (groupOf True False os) True False True s1 = (r2, s2)" by fastforce
  with ok[of False "groupOf True False os" True False True s1] have r2: "r2 = Inr True" by simp
  obtain r3 s3 where g3: "cancelGroup g True (groupOf False True os) False True True s2 = (r3, s3)" by fastforce
  with ok[of True "groupOf False True os" False True True s2] have r3: "r3 = Inr True" by simp
  show ?thesis
    using g1 r1 g2 r2 g3 r3 ok[of False "groupOf True True os" True True True s3]
    by (simp add: cancelOrders_def)
qed

text \<open>What a cancel function can do to a market, whatever the gateway answers.\<close>

lemma batchCancel_shape:
  "batchCancel g t dl s = (r, t', s') \<Longrightarrow>
     \<exists>H. orders t' = filter (\<lambda>x. orderHash x \<notin> H) (orders t)
        \<and> tm_id t' = tm_id t \<and> title t' = title t \<and> cancelCount t \<le> cancelCount t'
        \<and> (cooldownUntil t \<noteq> 0 \<longrightarrow> cooldownUntil t' = cooldownUntil t)"
proof (cases "dl = []")
  case True
  assume "batchCancel g t dl s = (r, t', s')"
  with True have "t' = t" by (simp add: batchCancel_def)
  then have "orders t' = filter (\<lambda>x. orderHash x \<notin> {}) (orders t)
        \<and> tm_id t' = tm_id t \<and> title t' = title t \<and> cancelCount t \<le> cancelCount t'
        \<and> (cooldownUntil t \<noteq> 0 \<longrightarrow> cooldownUntil t' = cooldownUntil t)" by simp
  then show ?thesis ..
next
  case False
  assume a: "batchCancel g t dl s = (r, t', s')"
  obtain cr s1 where c: "cancelOrders g dl s = (cr, s1)" by fastforce
  show ?thesis
  proof (cases "cr = Inr True")
    case True
    with a c False have "orders t' = filter (\<lambda>x. orderHash x \<notin> set (map cd_hash dl)) (orders t)
        \<and> tm_id t' = tm_id t \<and> title t' = title t \<and> cancelCount t \<le> cancelCount t'
        \<and> (cooldownUntil t \<noteq> 0 \<longrightarrow> cooldownUntil t' = cooldownUntil t)"
      by (auto simp: batchCancel_def incrementCancelCount_def Let_def)
    then show ?thesis ..
  next
    case F: False
    with a c False have "t' = t"
      by (cases cr) (auto simp: batchCancel_def split: bool.splits)
    then have "orders t' = filter (\<lambda>x. orderHash x \<notin> {}) (orders t)
        \<and> tm_id t' = tm_id t \<and> title t' = title t \<and> cancelCount t \<le> cancelCount t'
        \<and> (cooldownUntil t \<noteq> 0 \<longrightarrow> cooldownUntil t' = cooldownUntil t)" by simp
    then show ?thesis ..
  qed
qed

lemma cancelTopOrders_shape:
  "cancelTopOrders g t n s = (r, t', s') \<Longrightarrow>
     \<exists>H. orders t' = filter (\<lambda>x. orderHash x \<notin> H) (orders t)
        \<and> tm_id t' = tm_id t \<and> title t' = title t \<and> cancelCount t \<le> cancelCount t'
        \<and> (cooldownUntil t \<noteq> 0 \<longrightarrow> cooldownUntil t' = cooldownUntil t)"
proof -
  assume a: "cancelTopOrders g t n s = (r, t', s')"
  have same: "t' = t \<Longrightarrow> ?thesis"
  proof -
    assume "t' = t"
    then have "orders t' = filter (\<lambda>x. orderHash x \<notin> {}) (orders t)
        \<and> tm_id t' = tm_id t \<and> title t' = title t \<and> cancelCount t \<le> cancelCount t'
        \<and> (cooldownUntil t \<noteq> 0 \<longrightarrow> cooldownUntil t' = cooldownUntil t)" by simp
    then show ?thesis ..
  qed
  show ?thesis
  proof (cases "n = 0 \<or> orders t = [] \<or> n > length (orders t)")
    case True
    with a have "t' = t"
      by (auto simp: cancelTopOrders_def Let_def case_prod_beta split: if_splits)
    then show ?thesis by (rule same)
  next
    case False
    with a have "batchCancel g t (fst (fetchDetails g (tm_id t) (take n (orders t)) s))
                    (snd (fetchDetails g (tm_id t) (take n (orders t)) s)) = (r, t', s')"
      by (simp add: cancelTopOrders_def Let_def case_prod_beta)
    then show ?thesis by (rule batchCancel_shape)
  qed
qed

lemma cancelBottomOrders_shape:
  "cancelBottomOrders g t n s = (r, t', s') \<Longrightarrow>
     \<exists>H. orders t' = filter (\<lambda>x. orderHash x \<notin> H) (orders t)
        \<and> tm_id t' = tm_id t \<and> title t' = title t \<and> cancelCount t \<le> cancelCount t'
        \<and> (cooldownUntil t \<noteq> 0 \<longrightarrow> cooldownUntil t' = cooldownUntil t)"
proof (cases "take n (rev (orders t)) = []")
  case True
  assume "cancelBottomOrders g t n s = (r, t', s')"
  with True have "t' = t" by (simp add: cancelBottomOrders_def)
  then have "orders t' = filter (\<lambda>x. orderHash x \<notin> {}) (orders t)
        \<and> tm_id t' = tm_id t \<and> title t' = title t \<and> cancelCount t \<le> cancelCount t'
        \<and> (cooldownUntil t \<noteq> 0 \<longrightarrow> cooldownUntil t' = cooldownUntil t)" by simp
  then show ?thesis ..
next
  case False
  assume "cancelBottomOrders g t n s = (r, t', s')"
  with False have "batchCancel g t (fst (fetchDetails g (tm_id t) (take n (rev (orders t))) s))
                    (snd (fetchDetails g (tm_id t) (take n (rev (orders t))) s)) = (r, t', s')"
    by (simp add: cancelBottomOrders_def Let_def case_prod_beta)
  then show ?thesis by (rule batchCancel_shape)
qed

lemma ladderOk_filter: "ladderOk os \<Longrightarrow> ladderOk (filter P os)"
  unfolding ladderOk_def
  by (auto simp: list_all_iff sorted_wrt_map intro: sorted_wrt_filter)

text \<open>With a cooperating gateway and distinct hashes a batch takes exactly the selection.\<close>

lemma batchCancel_coop:
  assumes "cancelsSucceed g" and "dl \<noteq> []"
  shows "\<exists>s'. batchCancel g t dl s =
           (Inr (card (set (map cd_hash dl))),
            incrementCancelCount (gw_now g (history s'))
              (t\<lparr>orders := filter (\<lambda>x. orderHash x \<notin> set (map cd_hash dl)) (orders t)\<rparr>)
              (card (set (map cd_hash dl))), s')"
proof -
  obtain cr s1 where c: "cancelOrders g dl s = (cr, s1)" by fastforce
  with cancelOrders_ok[OF assms(1), of dl s] have "cr = Inr True" by simp
  with c assms(2) show ?thesis by (simp add: batchCancel_def Let_def)
qed

lemma filter_not_in_take:
  "distinct (map f xs) \<Longrightarrow> filter (\<lambda>x. f x \<notin> set (map f (take n xs))) xs = drop n xs"
proof (induction xs arbitrary: n)
  case Nil
  then show ?case by simp
next
  case (Cons a xs)
  show ?case
  proof (cases n)
    case 0
    then show ?thesis by simp
  next
    case (Suc m)
    from Cons.prems have d: "distinct (map f xs)" and a: "f a \<notin> f ` set xs" by auto
    have na: "\<And>x. x \<in> set xs \<Longrightarrow> f x \<noteq> f a"
    proof
      fix x assume "x \<in> set xs" "f x = f a"
      then have "f a \<in> f ` set xs" by (metis imageI)
      with a show False by contradiction
    qed
    have "filter (\<lambda>x. f x \<notin> set (map f (take n (a # xs)))) xs
          = filter (\<lambda>x. f x \<notin> set (map f (take m xs))) xs"
      using na Suc by (intro filter_cong) auto
    with Cons.IH[OF d, of m] Suc show ?thesis by simp
  qed
qed

lemma filter_not_in_take_rev:
  assumes "distinct (map f xs)"
  shows "filter (\<lambda>x. f x \<notin> set (map f (take n (rev xs)))) xs = take (length xs - n) xs"
proof -
  have d: "distinct (map f (rev xs))" using assms by (simp add: rev_map[symmetric])
  have "filter (\<lambda>x. f x \<notin> set (map f (take n (rev xs)))) (rev xs) = drop n (rev xs)"
    using filter_not_in_take[OF d] .
  then have "rev (filter (\<lambda>x. f x \<notin> set (map f (take n (rev xs)))) xs) = drop n (rev xs)"
    by (simp add: rev_filter)
  then have "filter (\<lambda>x. f x \<notin> set (map f (take n (rev xs)))) xs = rev (drop n (rev xs))"
    by (metis rev_rev_ident)
  then show ?thesis by (simp add: rev_drop)
qed


lemma cancelBottomOrders_coop:
  assumes g: "detailsAvailable g" "cancelsSucceed g"
    and d: "distinct (map orderHash (orders t))"
    and n: "0 < n" "n \<le> length (orders t)"
  shows "\<exists>s'. cancelBottomOrders g t n s =
           (Inr n, incrementCancelCount (gw_now g (history s'))
                     (t\<lparr>orders := take (length (orders t) - n) (orders t)\<rparr>) n, s')"
proof -
  let ?sel = "take n (rev (orders t))"
  let ?dl = "fst (fetchDetails g (tm_id t) ?sel s)"
  let ?s1 = "snd (fetchDetails g (tm_id t) ?sel s)"
  have h: "map cd_hash ?dl = map orderHash ?sel" using fetchDetails_hashes[OF g(1)] .
  from n have ne: "?sel \<noteq> []" by auto
  with h have dl: "?dl \<noteq> []" by (metis map_is_Nil_conv)
  have "distinct (map orderHash (rev (orders t)))" using d by (simp add: rev_map[symmetric])
  then have dsel: "distinct (map orderHash ?sel)" by (simp add: take_map[symmetric] distinct_take)
  have "card (set (map orderHash ?sel)) = length (map orderHash ?sel)"
    using dsel by (rule distinct_card)
  then have card: "card (set (map cd_hash ?dl)) = n"
    using h n by simp
  have flt: "filter (\<lambda>x. orderHash x \<notin> set (map cd_hash ?dl)) (orders t)
               = take (length (orders t) - n) (orders t)"
    unfolding h using filter_not_in_take_rev[OF d] .
  have run: "cancelBottomOrders g t n s = batchCancel g t ?dl ?s1"
    using ne by (auto simp: cancelBottomOrders_def Let_def case_prod_beta)
  from batchCancel_coop[OF g(2) dl, of t ?s1] show ?thesis
    unfolding run card flt .
qed

section \<open>Properties: placing orders\<close>

lemma openOrder_cases:
  "(\<exists>oid h ttl s1. openOrder g m p s = (Placed oid h ttl, s1)) \<or> (\<exists>s1. openOrder g m p s = (OpenFailed, s1))"
  by (cases "gw_open g (history s) m p") (auto simp: openOrder_def Let_def)

lemma openOrder_succeeds:
  "opensSucceed g \<Longrightarrow> \<exists>oid h ttl s1. openOrder g m p s = (Placed oid h ttl, s1)"
  by (cases "gw_open g (history s) m p") (auto simp: openOrder_def Let_def opensSucceed_def)

text \<open>
  The loop of \<^verbatim>\<open>openBottomOrders\<close> below a ladder whose prices all lie above the next
  level: the ladder is extended at its end by some of the levels the loop goes through, by
  all of them when the gateway accepts every order.
\<close>

lemma openBottomLoop_prices:
  assumes "tickAligned sp"
    and "sorted_wrt (\<ge>) (map price (orders t))"
    and "\<forall>x \<in> set (orders t). price x > sp - of_nat i * tick"
  shows "\<exists>new. orders (fst (openBottomLoop g sp i n t s)) = orders t @ new
            \<and> sorted_wrt (>) (map price new)
            \<and> (\<forall>x \<in> set new. tickAligned (price x) \<and> 0 < price x \<and> price x \<le> sp - of_nat i * tick)
            \<and> length new \<le> n
            \<and> (opensSucceed g \<longrightarrow> map price new = targetLoop sp i n)
            \<and> tm_id (fst (openBottomLoop g sp i n t s)) = tm_id t
            \<and> cancelCount (fst (openBottomLoop g sp i n t s)) = cancelCount t
            \<and> cooldownUntil (fst (openBottomLoop g sp i n t s)) = cooldownUntil t"
  using assms
proof (induction n arbitrary: i t s)
  case 0
  have "orders (fst (openBottomLoop g sp i 0 t s)) = orders t @ []
            \<and> sorted_wrt (>) (map price [])
            \<and> (\<forall>x \<in> set []. tickAligned (price x) \<and> 0 < price x \<and> price x \<le> sp - of_nat i * tick)
            \<and> length [] \<le> (0::nat)
            \<and> (opensSucceed g \<longrightarrow> map price [] = targetLoop sp i 0)
            \<and> tm_id (fst (openBottomLoop g sp i 0 t s)) = tm_id t
            \<and> cancelCount (fst (openBottomLoop g sp i 0 t s)) = cancelCount t
            \<and> cooldownUntil (fst (openBottomLoop g sp i 0 t s)) = cooldownUntil t" by simp
  then show ?case by (rule exI[of _ "[]"])
next
  case (Suc n)
  let ?p = "sp - of_nat i * tick"
  have fx: "toFixed3 ?p = ?p" using Suc.prems(1) by (rule toFixed3_diff)
  have al: "tickAligned ?p" using Suc.prems(1) by (rule tickAligned_diff)
  have step: "sp - of_nat (Suc i) * tick < ?p" by (simp add: tick_def field_simps)
  show ?case
  proof (cases "?p \<le> 0")
    case True
    then have r: "fst (openBottomLoop g sp i (Suc n) t s) = t" by (simp add: fx)
    from True have "targetLoop sp i (Suc n) = []" by simp
    then have "orders t = orders t @ []
            \<and> sorted_wrt (>) (map price [])
            \<and> (\<forall>x \<in> set []. tickAligned (price x) \<and> 0 < price x \<and> price x \<le> ?p)
            \<and> length [] \<le> Suc n
            \<and> (opensSucceed g \<longrightarrow> map price [] = targetLoop sp i (Suc n))
            \<and> tm_id t = tm_id t \<and> cancelCount t = cancelCount t \<and> cooldownUntil t = cooldownUntil t" by simp
    then show ?thesis unfolding r by (rule exI[of _ "[]"])
  next
    case False
    then have pos: "0 < ?p" by simp
    from openOrder_cases[of g "tm_id t" ?p s]
    show ?thesis
    proof
      assume "\<exists>oid h ttl s1. openOrder g (tm_id t) ?p s = (Placed oid h ttl, s1)"
      then obtain oid h ttl s1 where o: "openOrder g (tm_id t) ?p s = (Placed oid h ttl, s1)" by blast
      let ?y = "\<lparr>price = ?p, orderHash = h\<rparr>"
      let ?t1 = "t\<lparr>orders := orders t @ [?y]\<rparr>"
      have srt: "sortDesc (orders t @ [?y]) = orders t @ [?y]"
        using Suc.prems(2,3) by (intro sortDesc_snoc) (auto intro: less_imp_le)
      have run: "openBottomLoop g sp i (Suc n) t s = openBottomLoop g sp (Suc i) n ?t1 s1"
        using False o srt by (simp add: fx)
      have p2: "sorted_wrt (\<ge>) (map price (orders ?t1))"
        using Suc.prems(2,3) by (auto simp: sorted_wrt_append intro: less_imp_le)
      have p3: "\<forall>x \<in> set (orders ?t1). price x > sp - of_nat (Suc i) * tick"
        using Suc.prems(3) step by auto
      from Suc.IH[OF Suc.prems(1) p2 p3, of s1]
      obtain new where new: "orders (fst (openBottomLoop g sp (Suc i) n ?t1 s1)) = orders ?t1 @ new"
          "sorted_wrt (>) (map price new)"
          "\<forall>x \<in> set new. tickAligned (price x) \<and> 0 < price x \<and> price x \<le> sp - of_nat (Suc i) * tick"
          "length new \<le> n"
          "opensSucceed g \<longrightarrow> map price new = targetLoop sp (Suc i) n"
          "tm_id (fst (openBottomLoop g sp (Suc i) n ?t1 s1)) = tm_id ?t1"
          "cancelCount (fst (openBottomLoop g sp (Suc i) n ?t1 s1)) = cancelCount ?t1"
          "cooldownUntil (fst (openBottomLoop g sp (Suc i) n ?t1 s1)) = cooldownUntil ?t1"
        by blast
      have "orders (fst (openBottomLoop g sp i (Suc n) t s)) = orders t @ (?y # new)"
        using new(1) run by simp
      moreover have "sorted_wrt (>) (map price (?y # new))"
        using new(2,3) step by auto
      moreover have "\<forall>x \<in> set (?y # new). tickAligned (price x) \<and> 0 < price x \<and> price x \<le> ?p"
        using new(3) step al pos by auto
      moreover have "length (?y # new) \<le> Suc n" using new(4) by simp
      moreover have "opensSucceed g \<longrightarrow> map price (?y # new) = targetLoop sp i (Suc n)"
        using new(5) pos fx by simp
      moreover have "tm_id (fst (openBottomLoop g sp i (Suc n) t s)) = tm_id t
            \<and> cancelCount (fst (openBottomLoop g sp i (Suc n) t s)) = cancelCount t
            \<and> cooldownUntil (fst (openBottomLoop g sp i (Suc n) t s)) = cooldownUntil t"
        using new(6,7,8) run by simp
      ultimately have "orders (fst (openBottomLoop g sp i (Suc n) t s)) = orders t @ (?y # new)
            \<and> sorted_wrt (>) (map price (?y # new))
            \<and> (\<forall>x \<in> set (?y # new). tickAligned (price x) \<and> 0 < price x \<and> price x \<le> ?p)
            \<and> length (?y # new) \<le> Suc n
            \<and> (opensSucceed g \<longrightarrow> map price (?y # new) = targetLoop sp i (Suc n))
            \<and> tm_id (fst (openBottomLoop g sp i (Suc n) t s)) = tm_id t
            \<and> cancelCount (fst (openBottomLoop g sp i (Suc n) t s)) = cancelCount t
            \<and> cooldownUntil (fst (openBottomLoop g sp i (Suc n) t s)) = cooldownUntil t"
        by (intro conjI) (erule conjunct1 conjunct2 | assumption | (drule conjunct2, erule conjunct1) | (drule conjunct2, erule conjunct2))+
      then show ?thesis by (rule exI[of _ "?y # new"])
    next
      assume "\<exists>s1. openOrder g (tm_id t) ?p s = (OpenFailed, s1)"
      then obtain s1 where o: "openOrder g (tm_id t) ?p s = (OpenFailed, s1)" by blast
      have nos: "\<not> opensSucceed g"
        using o openOrder_succeeds[of g "tm_id t" ?p s] by auto
      have run: "openBottomLoop g sp i (Suc n) t s = openBottomLoop g sp (Suc i) n t s1"
        using False o by (simp add: fx)
      have p3: "\<forall>x \<in> set (orders t). price x > sp - of_nat (Suc i) * tick"
        using Suc.prems(3) step by auto
      from Suc.IH[OF Suc.prems(1,2) p3, of s1]
      obtain new where new: "orders (fst (openBottomLoop g sp (Suc i) n t s1)) = orders t @ new"
          "sorted_wrt (>) (map price new)"
          "\<forall>x \<in> set new. tickAligned (price x) \<and> 0 < price x \<and> price x \<le> sp - of_nat (Suc i) * tick"
          "length new \<le> n"
          "tm_id (fst (openBottomLoop g sp (Suc i) n t s1)) = tm_id t"
          "cancelCount (fst (openBottomLoop g sp (Suc i) n t s1)) = cancelCount t"
          "cooldownUntil (fst (openBottomLoop g sp (Suc i) n t s1)) = cooldownUntil t"
        by blast
      have "\<forall>x \<in> set new. tickAligned (price x) \<and> 0 < price x \<and> price x \<le> ?p"
        using new(3) step by auto
      moreover have "length new \<le> Suc n" using new(4) by simp
      ultimately have "orders (fst (openBottomLoop g sp (Suc i) n t s1)) = orders t @ new
            \<and> sorted_wrt (>) (map price new)
            \<and> (\<forall>x \<in> set new. tickAligned (price x) \<and> 0 < price x \<and> price x \<le> ?p)
            \<and> length new \<le> Suc n
            \<and> (opensSucceed g \<longrightarrow> map price new = targetLoop sp i (Suc n))
            \<and> tm_id (fst (openBottomLoop g sp (Suc i) n t s1)) = tm_id t
            \<and> cancelCount (fst (openBottomLoop g sp (Suc i) n t s1)) = cancelCount t
            \<and> cooldownUntil (fst (openBottomLoop g sp (Suc i) n t s1)) = cooldownUntil t"
        using new(1,2,5,6,7) nos by simp
      then show ?thesis unfolding run by (rule exI[of _ new])
    qed
  qed
qed

lemma toFixed3_below_one: "x \<le> 1 - tick \<Longrightarrow> toFixed3 x < 1"
proof (cases "x < 0")
  case True
  then have "(0::rat) \<le> (- x) * 1000 + 1 / 2" by simp
  then have "0 \<le> \<lfloor>(- x) * 1000 + 1 / 2\<rfloor>" by (simp only: zero_le_floor)
  then have "(0::rat) \<le> of_int \<lfloor>(- x) * 1000 + 1 / 2\<rfloor> / 1000" by simp
  then have "- (of_int \<lfloor>(- x) * 1000 + 1 / 2\<rfloor> / 1000) < (1::rat)" by linarith
  moreover have "toFixed3 x = - (of_int \<lfloor>(- x) * 1000 + 1 / 2\<rfloor> / 1000)"
    using True by (simp only: toFixed3_def if_True)
  ultimately show ?thesis by (simp only:)
next
  case False
  assume "x \<le> 1 - tick"
  then have "x * 1000 + 1 / 2 < 1000" by (simp add: tick_def)
  then have "\<lfloor>x * 1000 + 1 / 2\<rfloor> < 1000" by (simp add: floor_less_iff)
  then have "(of_int \<lfloor>x * 1000 + 1 / 2\<rfloor> :: rat) < 1000" by simp
  with False show ?thesis by (simp add: toFixed3_def)
qed

lemma ladderOk_append:
  assumes "ladderOk os"
    and "sorted_wrt (>) (map price new)"
    and "\<forall>x \<in> set new. tickAligned (price x) \<and> 0 < price x \<and> price x \<le> b"
    and "\<forall>x \<in> set os. b < price x" and "b < 1"
  shows "ladderOk (os @ new)"
  using assms unfolding ladderOk_def
  by (fastforce simp: list_all_iff sorted_wrt_append)

lemma ladderOk_last:
  "ladderOk os \<Longrightarrow> os \<noteq> [] \<Longrightarrow> \<forall>x \<in> set os. price (last os) \<le> price x"
proof -
  assume ok: "ladderOk os" and ne: "os \<noteq> []"
  then have s: "sorted_wrt (>) (map price os)" by (simp add: ladderOk_def)
  show ?thesis
  proof
    fix x assume "x \<in> set os"
    then obtain i where i: "i < length os" "os ! i = x" by (auto simp: in_set_conv_nth)
    show "price (last os) \<le> price x"
    proof (cases "i = length os - 1")
      case True
      with i ne show ?thesis by (simp add: last_conv_nth)
    next
      case False
      with i have lt: "i < length os - 1" by simp
      from s have "\<And>a b. a < b \<Longrightarrow> b < length os \<Longrightarrow> price (os ! a) > price (os ! b)"
        by (simp add: sorted_wrt_iff_nth_less)
      from this[OF lt] ne i show ?thesis by (simp add: last_conv_nth)
    qed
  qed
qed

text \<open>
  \<^verbatim>\<open>openBottomOrders\<close>, whatever the gateway answers: the ladder grows at its end by at
  most \<open>count\<close> orders and stays well-formed, provided the bids of a book are priced at
  most 1.
\<close>

lemma fetchOrderbook_within:
  "bookWithinOne g \<Longrightarrow> fetchOrderbook g m s = (bids, s1) \<Longrightarrow> \<forall>b \<in> set bids. bid_price b \<le> 1"
  by (auto simp: bookWithinOne_def fetchOrderbook_def Let_def split: option.splits) fastforce

lemma openBottomOrders_shape:
  assumes ok: "ladderOk (orders t)" and bk: "bookWithinOne g"
  shows "\<exists>new. orders (fst (openBottomOrders g t n s)) = orders t @ new
            \<and> length new \<le> n
            \<and> ladderOk (orders t @ new)
            \<and> tm_id (fst (openBottomOrders g t n s)) = tm_id t
            \<and> cancelCount (fst (openBottomOrders g t n s)) = cancelCount t
            \<and> cooldownUntil (fst (openBottomOrders g t n s)) = cooldownUntil t"
  (is ?G)
proof -
  have same: "fst (openBottomOrders g t n s) = t \<Longrightarrow> ?G"
  proof -
    assume e: "fst (openBottomOrders g t n s) = t"
    have "orders t = orders t @ [] \<and> length [] \<le> n \<and> ladderOk (orders t @ [])
          \<and> tm_id t = tm_id t \<and> cancelCount t = cancelCount t \<and> cooldownUntil t = cooldownUntil t"
      using ok by simp
    then show ?G unfolding e by (rule exI[of _ "[]"])
  qed
  have loop: "\<And>sp s1. tickAligned sp \<Longrightarrow> sp < 1 \<Longrightarrow> \<forall>x \<in> set (orders t). price x > sp \<Longrightarrow>
       fst (openBottomOrders g t n s) = fst (openBottomLoop g sp 0 n t s1) \<Longrightarrow> ?G"
  proof -
    fix sp s1
    assume al: "tickAligned sp" and lt: "sp < 1" and ab: "\<forall>x \<in> set (orders t). price x > sp"
      and e: "fst (openBottomOrders g t n s) = fst (openBottomLoop g sp 0 n t s1)"
    have srt: "sorted_wrt (\<ge>) (map price (orders t))"
      using ok by (simp add: ladderOk_def strict_imp_desc)
    from openBottomLoop_prices[OF al srt, of 0 g n s1] ab
    obtain new where new: "orders (fst (openBottomLoop g sp 0 n t s1)) = orders t @ new"
        "sorted_wrt (>) (map price new)"
        "\<forall>x \<in> set new. tickAligned (price x) \<and> 0 < price x \<and> price x \<le> sp"
        "length new \<le> n"
        "tm_id (fst (openBottomLoop g sp 0 n t s1)) = tm_id t"
        "cancelCount (fst (openBottomLoop g sp 0 n t s1)) = cancelCount t"
        "cooldownUntil (fst (openBottomLoop g sp 0 n t s1)) = cooldownUntil t"
      by auto
    have "ladderOk (orders t @ new)"
      using ok new(2,3) ab lt by (rule ladderOk_append)
    with new have "orders (fst (openBottomLoop g sp 0 n t s1)) = orders t @ new
            \<and> length new \<le> n
            \<and> ladderOk (orders t @ new)
            \<and> tm_id (fst (openBottomLoop g sp 0 n t s1)) = tm_id t
            \<and> cancelCount (fst (openBottomLoop g sp 0 n t s1)) = cancelCount t
            \<and> cooldownUntil (fst (openBottomLoop g sp 0 n t s1)) = cooldownUntil t" by simp
    then show ?G unfolding e by (rule exI[of _ new])
  qed
  show ?thesis
  proof (cases "orders t = []")
    case False
    let ?low = "price (last (orders t))"
    from ok False have lowin: "tickAligned ?low \<and> ?low < 1"
      by (simp add: ladderOk_def list_all_iff)
    then have sp: "toFixed3 (?low - tick) = ?low - tick" by (simp add: toFixed3_minus_tick)
    have "tickAligned (?low - of_nat 1 * tick)" using lowin by (intro tickAligned_diff) simp
    then have a1: "tickAligned (?low - tick)" by simp
    have a2: "?low - tick < 1" using lowin by (simp add: tick_def)
    have a3: "\<forall>x \<in> set (orders t). price x > ?low - tick"
    proof
      fix x assume "x \<in> set (orders t)"
      with ladderOk_last[OF ok False] have "?low \<le> price x" by simp
      then show "price x > ?low - tick" by (simp add: tick_def)
    qed
    have "fst (openBottomOrders g t n s) = fst (openBottomLoop g (?low - tick) 0 n t s)"
      using False sp by (simp add: openBottomOrders_def)
    with a1 a2 a3 show ?thesis by (rule loop)
  next
    case True
    obtain bids s1 where fb: "fetchOrderbook g (tm_id t) s = (bids, s1)" by fastforce
    show ?thesis
    proof (cases "findStartIndex bids")
      case None
      with True fb have "fst (openBottomOrders g t n s) = t"
        by (simp add: openBottomOrders_def)
      then show ?thesis by (rule same)
    next
      case (Some k)
      then have ne: "bids \<noteq> []" by (auto simp: findStartIndex_def)
      from Some depthScan_Some[of 0 0 bids k] have "k < length bids" by (simp add: findStartIndex_def)
      then have "bids ! k \<in> set bids" by simp
      with fetchOrderbook_within[OF bk fb] have le1: "bid_price (bids ! k) \<le> 1" by blast
      let ?sp = "toFixed3 (bid_price (bids ! k) - tick)"
      have a1: "tickAligned ?sp" by (rule tickAligned_toFixed3)
      have a2: "?sp < 1" using le1 by (intro toFixed3_below_one) simp
      have a3: "\<forall>x \<in> set (orders t). price x > ?sp" using True by simp
      have "fst (openBottomOrders g t n s) = fst (openBottomLoop g ?sp 0 n t s1)"
        using True fb ne Some by (simp add: openBottomOrders_def)
      with a1 a2 a3 show ?thesis by (rule loop)
    qed
  qed
qed

lemma ladderOk_Cons:
  assumes "ladderOk os" and "tickAligned p" and "0 < p" and "p < 1"
    and "\<forall>x \<in> set os. price x < p" and "price y = p"
  shows "ladderOk (y # os)"
  using assms unfolding ladderOk_def by (auto simp: list_all_iff)

lemma ladderOk_hd:
  "ladderOk (a # os) \<Longrightarrow> \<forall>x \<in> set (a # os). price x \<le> price a"
  unfolding ladderOk_def by (auto intro: less_imp_le)

text \<open>
  \<^verbatim>\<open>openTopOrders\<close>, whatever the gateway answers: the ladder grows at its front by at most
  \<open>count\<close> orders and stays well-formed; with a gateway that accepts every order it grows
  by exactly \<open>count\<close> orders when it is not empty and the last new price is below 1.
\<close>

lemma openTopOrders_shape:
  assumes "ladderOk (orders t)"
  shows "\<exists>new. orders (fst (openTopOrders g t n s)) = new @ orders t
            \<and> length new \<le> n
            \<and> ladderOk (new @ orders t)
            \<and> (\<forall>j < length new. price (new ! j) = price (hd (orders t)) + of_nat (length new - j) * tick)
            \<and> (opensSucceed g \<and> orders t \<noteq> [] \<and> price (hd (orders t)) + of_nat n * tick < 1
                  \<longrightarrow> length new = n)
            \<and> tm_id (fst (openTopOrders g t n s)) = tm_id t
            \<and> cancelCount (fst (openTopOrders g t n s)) = cancelCount t
            \<and> cooldownUntil (fst (openTopOrders g t n s)) = cooldownUntil t"
  using assms
proof (induction n arbitrary: t s)
  case 0
  have "orders (fst (openTopOrders g t 0 s)) = [] @ orders t
            \<and> length [] \<le> (0::nat)
            \<and> ladderOk ([] @ orders t)
            \<and> (\<forall>j < length []. price ([] ! j) = price (hd (orders t)) + of_nat (length [] - j) * tick)
            \<and> (opensSucceed g \<and> orders t \<noteq> [] \<and> price (hd (orders t)) + of_nat 0 * tick < 1
                  \<longrightarrow> length [] = (0::nat))
            \<and> tm_id (fst (openTopOrders g t 0 s)) = tm_id t
            \<and> cancelCount (fst (openTopOrders g t 0 s)) = cancelCount t
            \<and> cooldownUntil (fst (openTopOrders g t 0 s)) = cooldownUntil t"
    using "0.prems" by simp
  then show ?case by (rule exI[of _ "[]"])
next
  case (Suc n)
  have same: "fst (openTopOrders g t (Suc n) s) = t \<Longrightarrow>
      \<not> (opensSucceed g \<and> orders t \<noteq> [] \<and> price (hd (orders t)) + of_nat (Suc n) * tick < 1) \<Longrightarrow> ?case"
  proof -
    assume e: "fst (openTopOrders g t (Suc n) s) = t"
      and no: "\<not> (opensSucceed g \<and> orders t \<noteq> [] \<and> price (hd (orders t)) + of_nat (Suc n) * tick < 1)"
    have "orders t = [] @ orders t
            \<and> length [] \<le> Suc n
            \<and> ladderOk ([] @ orders t)
            \<and> (\<forall>j < length []. price ([] ! j) = price (hd (orders t)) + of_nat (length [] - j) * tick)
            \<and> (opensSucceed g \<and> orders t \<noteq> [] \<and> price (hd (orders t)) + of_nat (Suc n) * tick < 1
                  \<longrightarrow> length [] = Suc n)
            \<and> tm_id t = tm_id t \<and> cancelCount t = cancelCount t \<and> cooldownUntil t = cooldownUntil t"
      using Suc.prems no by simp
    then show ?case unfolding e by (rule exI[of _ "[]"])
  qed
  show ?case
  proof (cases "orders t")
    case Nil
    then have "fst (openTopOrders g t (Suc n) s) = t" by simp
    moreover have "\<not> (opensSucceed g \<and> orders t \<noteq> [] \<and> price (hd (orders t)) + of_nat (Suc n) * tick < 1)"
      using Nil by simp
    ultimately show ?thesis by (rule same)
  next
    case (Cons a rest)
    let ?top = "price a"
    from Suc.prems Cons have al: "tickAligned ?top" and pos: "0 < ?top"
      by (simp_all add: ladderOk_def)
    have fx: "toFixed3 (?top + tick) = ?top + tick" using al by (rule toFixed3_plus_tick)
    have "tickAligned (?top + of_nat 1 * tick)" using al by (intro tickAligned_add)
    then have al2: "tickAligned (?top + tick)" by simp
    show ?thesis
    proof (cases "?top + tick \<ge> 1")
      case True
      then have "fst (openTopOrders g t (Suc n) s) = t" using Cons by (simp add: fx)
      moreover have "\<not> (opensSucceed g \<and> orders t \<noteq> [] \<and> price (hd (orders t)) + of_nat (Suc n) * tick < 1)"
      proof -
        have "?top + tick \<le> ?top + of_nat (Suc n) * tick" by (simp add: tick_def field_simps)
        with True Cons show ?thesis by simp
      qed
      ultimately show ?thesis by (rule same)
    next
      case False
      then have lt1: "?top + tick < 1" by simp
      from openOrder_cases[of g "tm_id t" "?top + tick" s]
      show ?thesis
      proof
        assume "\<exists>s1. openOrder g (tm_id t) (?top + tick) s = (OpenFailed, s1)"
        then obtain s1 where o: "openOrder g (tm_id t) (?top + tick) s = (OpenFailed, s1)" by blast
        have nos: "\<not> opensSucceed g"
          using o openOrder_succeeds[of g "tm_id t" "?top + tick" s] by auto
        have run: "openTopOrders g t (Suc n) s = openTopOrders g t n s1"
          using Cons False o by (simp add: fx)
        from Suc.IH[OF Suc.prems, of s1]
        obtain new where new: "orders (fst (openTopOrders g t n s1)) = new @ orders t"
            "length new \<le> n" "ladderOk (new @ orders t)"
            "\<forall>j < length new. price (new ! j) = price (hd (orders t)) + of_nat (length new - j) * tick"
            "tm_id (fst (openTopOrders g t n s1)) = tm_id t"
            "cancelCount (fst (openTopOrders g t n s1)) = cancelCount t"
            "cooldownUntil (fst (openTopOrders g t n s1)) = cooldownUntil t"
          by blast
        have "orders (fst (openTopOrders g t n s1)) = new @ orders t
            \<and> length new \<le> Suc n
            \<and> ladderOk (new @ orders t)
            \<and> (\<forall>j < length new. price (new ! j) = price (hd (orders t)) + of_nat (length new - j) * tick)
            \<and> (opensSucceed g \<and> orders t \<noteq> [] \<and> price (hd (orders t)) + of_nat (Suc n) * tick < 1
                  \<longrightarrow> length new = Suc n)
            \<and> tm_id (fst (openTopOrders g t n s1)) = tm_id t
            \<and> cancelCount (fst (openTopOrders g t n s1)) = cancelCount t
            \<and> cooldownUntil (fst (openTopOrders g t n s1)) = cooldownUntil t"
          using new nos by simp
        then show ?thesis unfolding run by (rule exI[of _ new])
      next
        assume "\<exists>oid h ttl s1. openOrder g (tm_id t) (?top + tick) s = (Placed oid h ttl, s1)"
        then obtain oid h ttl s1 where o: "openOrder g (tm_id t) (?top + tick) s = (Placed oid h ttl, s1)"
          by blast
        let ?y = "\<lparr>price = ?top + tick, orderHash = h\<rparr>"
        let ?t1 = "t\<lparr>orders := ?y # orders t\<rparr>"
        let ?s2 = "if h \<noteq> [] then snd (getOrderByHash g h s1) else s1"
        have below: "\<forall>x \<in> set (orders t). price x < ?top + tick"
        proof
          fix x assume "x \<in> set (orders t)"
          with ladderOk_hd[of a rest] Suc.prems Cons have "price x \<le> ?top" by auto
          then show "price x < ?top + tick" by (simp add: tick_def)
        qed
        have srt: "sortDesc (?y # orders t) = ?y # orders t"
          using Suc.prems below
          by (intro sortDesc_Cons) (auto simp: ladderOk_def strict_imp_desc intro: less_imp_le)
        have run: "openTopOrders g t (Suc n) s = openTopOrders g ?t1 n ?s2"
          using Cons False o srt by (simp add: fx)
        have ok1: "ladderOk (orders ?t1)"
          using ladderOk_Cons[OF Suc.prems al2 _ lt1 below, of ?y] pos by (simp add: tick_def)
        from Suc.IH[OF ok1, of ?s2]
        obtain new where new: "orders (fst (openTopOrders g ?t1 n ?s2)) = new @ orders ?t1"
            "length new \<le> n" "ladderOk (new @ orders ?t1)"
            "\<forall>j < length new. price (new ! j) = price (hd (orders ?t1)) + of_nat (length new - j) * tick"
            "opensSucceed g \<and> orders ?t1 \<noteq> [] \<and> price (hd (orders ?t1)) + of_nat n * tick < 1
                  \<longrightarrow> length new = n"
            "tm_id (fst (openTopOrders g ?t1 n ?s2)) = tm_id ?t1"
            "cancelCount (fst (openTopOrders g ?t1 n ?s2)) = cancelCount ?t1"
            "cooldownUntil (fst (openTopOrders g ?t1 n ?s2)) = cooldownUntil ?t1"
          by blast
        let ?new = "new @ [?y]"
        have c1: "orders (fst (openTopOrders g ?t1 n ?s2)) = ?new @ orders t" using new(1) by simp
        have c2: "length ?new \<le> Suc n" using new(2) by simp
        have c3: "ladderOk (?new @ orders t)" using new(3) by simp
        have c4: "\<forall>j < length ?new. price (?new ! j) = price (hd (orders t)) + of_nat (length ?new - j) * tick"
        proof (intro allI impI)
          fix j assume j: "j < length ?new"
          show "price (?new ! j) = price (hd (orders t)) + of_nat (length ?new - j) * tick"
          proof (cases "j < length new")
            case True
            with new(4) have "price (new ! j) = ?top + tick + of_nat (length new - j) * tick" by simp
            moreover have "of_nat (length ?new - j) = (of_nat (length new - j) :: rat) + 1"
              using True by (simp add: Suc_diff_le)
            ultimately show ?thesis using True Cons by (simp add: nth_append field_simps)
          next
            case False
            with j have "j = length new" by simp
            then show ?thesis using Cons by (simp add: nth_append)
          qed
        qed
        have c5: "opensSucceed g \<and> orders t \<noteq> [] \<and> price (hd (orders t)) + of_nat (Suc n) * tick < 1
                  \<longrightarrow> length ?new = Suc n"
        proof
          assume h: "opensSucceed g \<and> orders t \<noteq> [] \<and> price (hd (orders t)) + of_nat (Suc n) * tick < 1"
          then have "?top + tick + of_nat n * tick < 1" using Cons by (simp add: field_simps)
          with h new(5) show "length ?new = Suc n" by simp
        qed
        have c6: "tm_id (fst (openTopOrders g ?t1 n ?s2)) = tm_id t
            \<and> cancelCount (fst (openTopOrders g ?t1 n ?s2)) = cancelCount t
            \<and> cooldownUntil (fst (openTopOrders g ?t1 n ?s2)) = cooldownUntil t"
          using new(6,7,8) by simp
        from c1 c2 c3 c4 c5 c6
        have "orders (fst (openTopOrders g ?t1 n ?s2)) = ?new @ orders t
            \<and> length ?new \<le> Suc n
            \<and> ladderOk (?new @ orders t)
            \<and> (\<forall>j < length ?new. price (?new ! j) = price (hd (orders t)) + of_nat (length ?new - j) * tick)
            \<and> (opensSucceed g \<and> orders t \<noteq> [] \<and> price (hd (orders t)) + of_nat (Suc n) * tick < 1
                  \<longrightarrow> length ?new = Suc n)
            \<and> tm_id (fst (openTopOrders g ?t1 n ?s2)) = tm_id t
            \<and> cancelCount (fst (openTopOrders g ?t1 n ?s2)) = cancelCount t
            \<and> cooldownUntil (fst (openTopOrders g ?t1 n ?s2)) = cooldownUntil t"
          by (intro conjI) (assumption | erule conjunct1 | (drule conjunct2, erule conjunct1) | (drule conjunct2, erule conjunct2))+
        then show ?thesis unfolding run by (rule exI[of _ ?new])
      qed
    qed
  qed
qed

section \<open>Properties: one rebalance pass\<close>

lemma resolveDetails_hash:
  "resolveDetails g m a s = (Some x, s1) \<Longrightarrow> cd_hash x = orderHash a"
  by (auto simp: resolveDetails_def Let_def split: option.splits if_splits prod.splits)

lemma fetchDetails_subset:
  "set (map cd_hash (fst (fetchDetails g m sel s))) \<subseteq> set (map orderHash sel)"
proof (induction sel arbitrary: s)
  case Nil
  then show ?case by simp
next
  case (Cons a sel)
  obtain d s1 where r: "resolveDetails g m a s = (d, s1)" by fastforce
  show ?case
  proof (cases d)
    case None
    with r Cons.IH[of s1] show ?thesis by (auto simp: case_prod_beta)
  next
    case (Some x)
    with r resolveDetails_hash[of g m a s x s1] Cons.IH[of s1] show ?thesis
      by (auto simp: case_prod_beta)
  qed
qed

lemma filter_card_le:
  assumes "H \<subseteq> f ` set xs"
  shows "length (filter (\<lambda>x. f x \<notin> H) xs) + card H \<le> length xs"
proof -
  have "H \<subseteq> f ` set (filter (\<lambda>x. f x \<in> H) xs)" using assms by auto
  then have "card H \<le> card (f ` set (filter (\<lambda>x. f x \<in> H) xs))" by (intro card_mono) auto
  also have "\<dots> \<le> card (set (filter (\<lambda>x. f x \<in> H) xs))" by (rule card_image_le) simp
  also have "\<dots> \<le> length (filter (\<lambda>x. f x \<in> H) xs)" by (rule card_length)
  finally have "card H \<le> length (filter (\<lambda>x. f x \<in> H) xs)" .
  moreover have "length xs = length (filter (\<lambda>x. f x \<in> H) xs) + length (filter (\<lambda>x. f x \<notin> H) xs)"
    using sum_length_filter_compl[of "\<lambda>x. f x \<in> H" xs] by simp
  ultimately show ?thesis by simp
qed

text \<open>A cancel function never reports more cancellations than orders left the list.\<close>

lemma batchCancel_count:
  assumes "set (map cd_hash dl) \<subseteq> set (map orderHash (orders t))"
    and "batchCancel g t dl s = (r, t', s')"
  shows "(case r of Inl e \<Rightarrow> t' = t | Inr c \<Rightarrow> length (orders t') + c \<le> length (orders t))"
proof (cases "dl = []")
  case True
  with assms(2) show ?thesis by (auto simp: batchCancel_def)
next
  case False
  obtain cr s1 where c: "cancelOrders g dl s = (cr, s1)" by fastforce
  show ?thesis
  proof (cases cr)
    case (Inl e)
    with assms(2) c False show ?thesis by (auto simp: batchCancel_def)
  next
    case (Inr b)
    show ?thesis
    proof (cases b)
      case False
      with Inr assms(2) c \<open>dl \<noteq> []\<close> show ?thesis by (auto simp: batchCancel_def)
    next
      case True
      have "length (filter (\<lambda>x. orderHash x \<notin> set (map cd_hash dl)) (orders t)) + card (set (map cd_hash dl))
              \<le> length (orders t)"
        using assms(1) by (intro filter_card_le) simp
      with True Inr assms(2) c \<open>dl \<noteq> []\<close> show ?thesis
        by (auto simp: batchCancel_def incrementCancelCount_def Let_def)
    qed
  qed
qed

lemma cancelTopOrders_count:
  assumes "cancelTopOrders g t n s = (r, t', s')"
  shows "(case r of Inl e \<Rightarrow> t' = t | Inr c \<Rightarrow> length (orders t') + c \<le> length (orders t))"
proof (cases "n = 0 \<or> orders t = [] \<or> n > length (orders t)")
  case True
  with assms show ?thesis
    by (auto simp: cancelTopOrders_def Let_def case_prod_beta split: if_splits)
next
  case False
  let ?fd = "fetchDetails g (tm_id t) (take n (orders t)) s"
  from False assms have b: "batchCancel g t (fst ?fd) (snd ?fd) = (r, t', s')"
    by (simp add: cancelTopOrders_def Let_def case_prod_beta)
  have "set (map cd_hash (fst ?fd)) \<subseteq> set (map orderHash (take n (orders t)))"
    by (rule fetchDetails_subset)
  also have "\<dots> \<subseteq> set (map orderHash (orders t))"
    by (simp add: image_mono set_take_subset)
  finally show ?thesis using b by (rule batchCancel_count)
qed

lemma cancelBottomOrders_count:
  assumes "cancelBottomOrders g t n s = (r, t', s')"
  shows "(case r of Inl e \<Rightarrow> t' = t | Inr c \<Rightarrow> length (orders t') + c \<le> length (orders t))"
proof (cases "take n (rev (orders t)) = []")
  case True
  with assms show ?thesis by (auto simp: cancelBottomOrders_def)
next
  case False
  let ?fd = "fetchDetails g (tm_id t) (take n (rev (orders t))) s"
  from False assms have b: "batchCancel g t (fst ?fd) (snd ?fd) = (r, t', s')"
    by (simp add: cancelBottomOrders_def Let_def case_prod_beta)
  have "set (map cd_hash (fst ?fd)) \<subseteq> set (map orderHash (take n (rev (orders t))))"
    by (rule fetchDetails_subset)
  also have "\<dots> \<subseteq> set (map orderHash (orders t))"
    using set_take_subset[of n "rev (orders t)"] by auto
  finally have "set (map cd_hash (fst ?fd)) \<subseteq> set (map orderHash (orders t))" .
  then show ?thesis using b by (rule batchCancel_count)
qed

text \<open>
  The two shifts, whatever the gateway answers: the ladder stays well-formed and does
  not get longer.
\<close>

lemma rebalanceDown_keeps:
  assumes ok: "ladderOk (orders t)" and bk: "bookWithinOne g"
  shows "ladderOk (orders (fst (rebalanceDown g t b s)))
       \<and> length (orders (fst (rebalanceDown g t b s))) \<le> length (orders t)"
proof -
  obtain r t1 s1 where c: "cancelTopOrders g t (ordersToMoveDown (orders t) (bid_price b)) s = (r, t1, s1)"
    by (metis prod_cases3)
  from cancelTopOrders_shape[OF c] ok have ok1: "ladderOk (orders t1)"
    by (auto intro: ladderOk_filter)
  from cancelTopOrders_shape[OF c] have le1: "length (orders t1) \<le> length (orders t)" by auto
  show ?thesis
  proof (cases r)
    case (Inl e)
    with c ok1 le1 show ?thesis by (simp add: rebalanceDown_def)
  next
    case (Inr cnt)
    with cancelTopOrders_count[OF c] have cnt: "length (orders t1) + cnt \<le> length (orders t)" by simp
    show ?thesis
    proof (cases "cnt > 0")
      case False
      with Inr c ok1 le1 show ?thesis by (simp add: rebalanceDown_def)
    next
      case True
      from openBottomOrders_shape[OF ok1 bk, of cnt s1]
      obtain new where new: "orders (fst (openBottomOrders g t1 cnt s1)) = orders t1 @ new"
        "length new \<le> cnt" "ladderOk (orders t1 @ new)" by blast
      have "fst (rebalanceDown g t b s) = fst (openBottomOrders g t1 cnt s1)"
        using True Inr c by (simp add: rebalanceDown_def)
      with new cnt show ?thesis by simp
    qed
  qed
qed

lemma rebalanceUp_keeps:
  assumes ok: "ladderOk (orders t)"
  shows "ladderOk (orders (fst (rebalanceUp g t bids b hi s)))
       \<and> length (orders (fst (rebalanceUp g t bids b hi s))) \<le> length (orders t)"
proof -
  let ?n = "validMoves bids (bid_price b) (price hi) (length (orders t))"
  show ?thesis
  proof (cases "?n > 0")
    case False
    with ok show ?thesis by (simp add: rebalanceUp_def)
  next
    case pos: True
    obtain r t1 s1 where c: "cancelBottomOrders g t ?n s = (r, t1, s1)" by (metis prod_cases3)
    from cancelBottomOrders_shape[OF c] ok have ok1: "ladderOk (orders t1)"
      by (auto intro: ladderOk_filter)
    from cancelBottomOrders_shape[OF c] have le1: "length (orders t1) \<le> length (orders t)" by auto
    show ?thesis
    proof (cases r)
      case (Inl e)
      with c ok1 le1 pos show ?thesis by (simp add: rebalanceUp_def)
    next
      case (Inr cnt)
      with cancelBottomOrders_count[OF c] have cnt: "length (orders t1) + cnt \<le> length (orders t)" by simp
      show ?thesis
      proof (cases "cnt > 0")
        case False
        with Inr c ok1 le1 pos show ?thesis by (simp add: rebalanceUp_def)
      next
        case True
        from openTopOrders_shape[OF ok1, of g cnt s1]
        obtain new where new: "orders (fst (openTopOrders g t1 cnt s1)) = new @ orders t1"
          "length new \<le> cnt" "ladderOk (new @ orders t1)" by blast
        have "fst (rebalanceUp g t bids b hi s) = fst (openTopOrders g t1 cnt s1)"
          using True Inr c pos by (simp add: rebalanceUp_def)
        with new cnt show ?thesis by simp
      qed
    qed
  qed
qed

lemma directional_keeps:
  assumes ok: "ladderOk (orders t)" and bk: "bookWithinOne g"
  shows "ladderOk (orders (fst (directional g t bids s)))
       \<and> length (orders (fst (directional g t bids s))) \<le> length (orders t)"
proof (cases "orders t")
  case Nil
  with ok show ?thesis by (simp add: directional_def)
next
  case (Cons hi rest)
  show ?thesis
  proof (cases bids)
    case Nil
    with ok Cons show ?thesis by (simp add: directional_def)
  next
    case (Cons b bs)
    with \<open>orders t = hi # rest\<close> ok rebalanceDown_keeps[OF ok bk, of b s]
      rebalanceUp_keeps[OF ok, of g bids b hi s]
    show ?thesis by (simp add: directional_def)
  qed
qed

lemma filter_last_n_length:
  "length (filter (\<lambda>x. f x \<notin> set (map f (take n (rev xs)))) xs) \<le> length xs - n"
proof -
  let ?d = "length xs - n"
  let ?H = "set (map f (take n (rev xs)))"
  have tk: "take n (rev xs) = rev (drop ?d xs)" by (simp add: rev_drop[symmetric] take_rev)
  have "filter (\<lambda>x. f x \<notin> ?H) (drop ?d xs) = []"
    unfolding tk by (auto simp: filter_empty_conv)
  moreover have "filter (\<lambda>x. f x \<notin> ?H) xs
        = filter (\<lambda>x. f x \<notin> ?H) (take ?d xs) @ filter (\<lambda>x. f x \<notin> ?H) (drop ?d xs)"
    by (metis append_take_drop_id filter_append)
  ultimately have "filter (\<lambda>x. f x \<notin> ?H) xs = filter (\<lambda>x. f x \<notin> ?H) (take ?d xs)" by simp
  then have "length (filter (\<lambda>x. f x \<notin> ?H) xs) \<le> length (take ?d xs)"
    by (simp only: length_filter_le)
  then show ?thesis by simp
qed

lemma cancelBottomOrders_coop_length:
  assumes g: "detailsAvailable g" "cancelsSucceed g"
  shows "length (orders (fst (snd (cancelBottomOrders g t n s)))) \<le> length (orders t) - n
       \<and> (\<exists>c. fst (cancelBottomOrders g t n s) = Inr c)"
proof (cases "take n (rev (orders t)) = []")
  case True
  then have "n = 0 \<or> orders t = []" by auto
  with True show ?thesis by (auto simp: cancelBottomOrders_def)
next
  case False
  let ?sel = "take n (rev (orders t))"
  let ?dl = "fst (fetchDetails g (tm_id t) ?sel s)"
  let ?s1 = "snd (fetchDetails g (tm_id t) ?sel s)"
  have h: "map cd_hash ?dl = map orderHash ?sel" using fetchDetails_hashes[OF g(1)] .
  with False have dl: "?dl \<noteq> []" by (metis map_is_Nil_conv)
  have run: "cancelBottomOrders g t n s = batchCancel g t ?dl ?s1"
    using False by (auto simp: cancelBottomOrders_def Let_def case_prod_beta)
  from batchCancel_coop[OF g(2) dl, of t ?s1]
  obtain s' where b: "batchCancel g t ?dl ?s1 =
           (Inr (card (set (map cd_hash ?dl))),
            incrementCancelCount (gw_now g (history s'))
              (t\<lparr>orders := filter (\<lambda>x. orderHash x \<notin> set (map cd_hash ?dl)) (orders t)\<rparr>)
              (card (set (map cd_hash ?dl))), s')" by blast
  have "orders (fst (snd (cancelBottomOrders g t n s)))
          = filter (\<lambda>x. orderHash x \<notin> set (map orderHash ?sel)) (orders t)"
    unfolding run b h by (simp add: incrementCancelCount_def Let_def)
  then show ?thesis using filter_last_n_length[of orderHash n "orders t"] run b by simp
qed

lemma rebalanceActive_keeps:
  assumes ok: "ladderOk (orders t)" and bk: "bookWithinOne g"
  shows "ladderOk (orders (fst (rebalanceActive g t s)))
       \<and> (length (orders t) \<le> 5 \<or> detailsAvailable g \<and> cancelsSucceed g
            \<longrightarrow> length (orders (fst (rebalanceActive g t s))) \<le> 5)"
proof -
  let ?trim = "if length (orders t) > 5
            then cancelBottomOrders g t (length (orders t) - 5) s
            else (Inr 0, t, s)"
  obtain r t1 s1 where tr: "?trim = (r, t1, s1)" by (metis prod_cases3)
  have ok1: "ladderOk (orders t1)"
  proof (cases "length (orders t) > 5")
    case True
    with tr have "cancelBottomOrders g t (length (orders t) - 5) s = (r, t1, s1)" by simp
    from cancelBottomOrders_shape[OF this] ok show ?thesis by (auto intro: ladderOk_filter)
  next
    case False
    with tr ok show ?thesis by simp
  qed
  have len1: "length (orders t) \<le> 5 \<or> detailsAvailable g \<and> cancelsSucceed g
                \<Longrightarrow> length (orders t1) \<le> 5 \<and> (\<exists>c. r = Inr c)"
  proof (cases "length (orders t) > 5")
    case False
    with tr show ?thesis by auto
  next
    case True
    assume "length (orders t) \<le> 5 \<or> detailsAvailable g \<and> cancelsSucceed g"
    with True have g: "detailsAvailable g" "cancelsSucceed g" by auto
    from cancelBottomOrders_coop_length[OF g, of t "length (orders t) - 5" s] tr True
    show ?thesis by auto
  qed
  show ?thesis
  proof (cases r)
    case (Inl e)
    with tr ok1 len1 show ?thesis by (auto simp: rebalanceActive_def)
  next
    case (Inr c)
    obtain bids s2 where fb: "fetchOrderbook g (tm_id t1) s1 = (bids, s2)" by fastforce
    show ?thesis
    proof (cases "bids = []")
      case True
      with Inr tr fb ok1 len1 show ?thesis by (auto simp: rebalanceActive_def)
    next
      case False
      let ?refill = "if length (orders t1) < 5
                                then openBottomOrders g t1 (5 - length (orders t1)) s2
                                else (t1, s2)"
      obtain t2 s3 where rf: "?refill = (t2, s3)" by fastforce
      have ok2: "ladderOk (orders t2) \<and> (length (orders t1) \<le> 5 \<longrightarrow> length (orders t2) \<le> 5)"
      proof (cases "length (orders t1) < 5")
        case True
        from openBottomOrders_shape[OF ok1 bk, of "5 - length (orders t1)" s2]
        obtain new where new: "orders (fst (openBottomOrders g t1 (5 - length (orders t1)) s2)) = orders t1 @ new"
          "length new \<le> 5 - length (orders t1)" "ladderOk (orders t1 @ new)" by blast
        from rf True have "t2 = fst (openBottomOrders g t1 (5 - length (orders t1)) s2)" by auto
        with new True show ?thesis by simp
      next
        case False
        with rf ok1 show ?thesis by auto
      qed
      have run: "rebalanceActive g t s = directional g t2 bids s3"
        using tr Inr fb False rf by (simp add: rebalanceActive_def)
      from directional_keeps[OF _ bk, of t2 bids s3] ok2 len1
      show ?thesis unfolding run by auto
    qed
  qed
qed

lemma checkAndRebalance_keeps:
  assumes ok: "ladderOk (orders t)" and bk: "bookWithinOne g"
  shows "ladderOk (orders (fst (checkAndRebalance g t s)))
       \<and> (length (orders t) \<le> 5 \<or> detailsAvailable g \<and> cancelsSucceed g
            \<longrightarrow> length (orders (fst (checkAndRebalance g t s))) \<le> 5)"
proof (cases "cooldownUntil t > 0 \<and> gw_now g (history s) < cooldownUntil t")
  case False
  let ?t0 = "t\<lparr>cancelCount := 0, cooldownUntil := 0\<rparr>"
  have "checkAndRebalance g t s = rebalanceActive g t s \<or> checkAndRebalance g t s = rebalanceActive g ?t0 s"
    using False by (auto simp: checkAndRebalance_def)
  moreover have "ladderOk (orders ?t0)" using ok by simp
  ultimately show ?thesis
    using rebalanceActive_keeps[OF ok bk, of s] rebalanceActive_keeps[OF _ bk, of ?t0 s] by auto
next
  case True
  show ?thesis
  proof (cases "orders t = []")
    case e: True
    with True ok show ?thesis by (simp add: checkAndRebalance_def)
  next
    case ne: False
    obtain r t1 s1 where c: "cancelBottomOrders g t (length (orders t)) s = (r, t1, s1)"
      by (metis prod_cases3)
    from cancelBottomOrders_shape[OF c] ok have ok1: "ladderOk (orders t1)"
      by (auto intro: ladderOk_filter)
    from cancelBottomOrders_shape[OF c] have le: "length (orders t1) \<le> length (orders t)" by auto
    have co: "detailsAvailable g \<and> cancelsSucceed g \<Longrightarrow> length (orders t1) \<le> 5"
      using cancelBottomOrders_coop_length[of g t "length (orders t)" s] c by simp
    have "fst (checkAndRebalance g t s) = t1"
      using True ne c by (simp add: checkAndRebalance_def)
    with ok1 le co show ?thesis by auto
  qed
qed

section \<open>Properties: the ladder invariant\<close>

lemma desc_distinct_strict:
  "sorted_wrt (\<ge>) (ps :: rat list) \<Longrightarrow> distinct ps \<Longrightarrow> sorted_wrt (>) ps"
  by (induction ps) (auto simp: less_le)

lemma strict_distinct: "sorted_wrt (>) (ps :: rat list) \<Longrightarrow> distinct ps"
  by (induction ps) auto

lemma distinct_map_sortDesc: "distinct (map price (sortDesc os)) = distinct (map price os)"
  by (simp add: distinct_map sortDesc_def)

lemma ladderOk_sortDesc:
  assumes "distinct (map price os)"
    and "\<forall>x \<in> set os. tickAligned (price x) \<and> 0 < price x \<and> price x < 1"
  shows "ladderOk (sortDesc os)"
proof -
  have "sorted_wrt (>) (map price (sortDesc os))"
    using sortDesc_descending[of os] assms(1)
    by (intro desc_distinct_strict) (simp_all add: distinct_map_sortDesc)
  then show ?thesis using assms(2) by (simp add: ladderOk_def list_all_iff set_sortDesc)
qed

lemma ladderOk_prices:
  "ladderOk os \<Longrightarrow> distinct (map price os)
      \<and> (\<forall>x \<in> set os. tickAligned (price x) \<and> 0 < price x \<and> price x < 1)"
  by (simp add: ladderOk_def list_all_iff strict_distinct)

text \<open>Reopening: every order added stands for an order removed, at its price.\<close>

lemma reopenLoop_added:
  assumes "distinct (map price xs)"
  shows "distinct (map price (snd (fst (reopenLoop g m xs s))))
       \<and> (\<forall>a \<in> set (snd (fst (reopenLoop g m xs s))).
             \<exists>x \<in> set xs. price x = price a \<and> orderHash x \<in> set (fst (fst (reopenLoop g m xs s))))"
  using assms
proof (induction xs arbitrary: s)
  case Nil
  then show ?case by simp
next
  case (Cons x xs)
  from Cons.prems have d: "distinct (map price xs)" and nx: "price x \<notin> price ` set xs" by auto
  note ih = Cons.IH[OF d]
  obtain res s1 where go: "getOrderByHash g (orderHash x) s = (res, s1)" by fastforce
  show ?case
  proof (cases "\<exists>dd. res = Some dd \<and> od_status dd \<noteq> ''OPEN''")
    case False
    then have "reopenLoop g m (x # xs) s = reopenLoop g m xs s1"
      using go by (auto split: option.splits)
    with ih[of s1] show ?thesis by auto
  next
    case True
    then obtain dd where dd: "res = Some dd" "od_status dd \<noteq> ''OPEN''" by blast
    let ?s2 = "s1\<lparr>storage := deleteOrder (orderHash x) (storage s1)\<rparr>"
    obtain added s4 where op: "(case openOrder g m (price x) ?s2 of
                      (Placed oid h ttl, s3) \<Rightarrow>
                        ([\<lparr>price = price x, orderHash = h\<rparr>],
                         if h \<noteq> [] then snd (getOrderByHash g h s3) else s3)
                    | (OpenFailed, s3) \<Rightarrow> ([], s3)) = (added, s4)" by fastforce
    have added: "\<forall>a \<in> set added. price a = price x" "length added \<le> 1"
      using op by (auto split: prod.splits open_result.splits)
    obtain rm ad s5 where rec: "reopenLoop g m xs s4 = ((rm, ad), s5)" by (metis prod.collapse)
    have run: "reopenLoop g m (x # xs) s = ((orderHash x # rm, added @ ad), s5)"
      using go dd op rec by simp
    from ih[of s4] rec have ihs: "distinct (map price ad)"
      "\<forall>a \<in> set ad. \<exists>y \<in> set xs. price y = price a \<and> orderHash y \<in> set rm" by auto
    have "price ` set ad \<subseteq> price ` set xs"
    proof
      fix p assume "p \<in> price ` set ad"
      then obtain a where "a \<in> set ad" "p = price a" by blast
      with ihs(2) obtain y where "y \<in> set xs" "price y = p" by metis
      then show "p \<in> price ` set xs" by (metis imageI)
    qed
    with nx have "price x \<notin> price ` set ad" by blast
    moreover have "distinct (map price added)" using added(2) by (cases added) auto
    ultimately have "distinct (map price (added @ ad))" using ihs(1) added(1) by auto
    moreover have "\<forall>a \<in> set (added @ ad). \<exists>y \<in> set (x # xs). price y = price a \<and> orderHash y \<in> set (orderHash x # rm)"
      using ihs(2) added(1) by auto
    ultimately show ?thesis unfolding run by simp
  qed
qed

lemma reopenMarket_keeps:
  assumes ok: "ladderOk (orders t)"
  shows "ladderOk (orders (fst (reopenMarket g t s)))"
proof -
  obtain rm ad s1 where r: "reopenLoop g (tm_id t) (orders t) s = ((rm, ad), s1)" by (metis prod.collapse)
  from ladderOk_prices[OF ok] have d: "distinct (map price (orders t))"
    and each: "\<forall>x \<in> set (orders t). tickAligned (price x) \<and> 0 < price x \<and> price x < 1" by auto
  from reopenLoop_added[OF d, of g "tm_id t" s] r
  have ad: "distinct (map price ad)"
    "\<forall>a \<in> set ad. \<exists>x \<in> set (orders t). price x = price a \<and> orderHash x \<in> set rm" by auto
  show ?thesis
  proof (cases "rm = []")
    case True
    with r ok show ?thesis by (simp add: reopenMarket_def)
  next
    case False
    let ?kept = "filter (\<lambda>x. orderHash x \<notin> set rm) (orders t)"
    have dk: "distinct (map price ?kept)" using d by (simp add: distinct_map_filter)
    have disj: "price ` set ?kept \<inter> price ` set ad = {}"
    proof (rule ccontr)
      assume "price ` set ?kept \<inter> price ` set ad \<noteq> {}"
      then obtain y a where y: "y \<in> set (orders t)" "orderHash y \<notin> set rm" and a: "a \<in> set ad" "price y = price a"
        by auto
      from ad(2) a obtain x where x: "x \<in> set (orders t)" "price x = price a" "orderHash x \<in> set rm" by blast
      from d have "inj_on price (set (orders t))" by (simp add: distinct_map)
      with x y a have "x = y" by (metis inj_onD)
      with x y show False by simp
    qed
    have "distinct (map price (?kept @ ad))" using dk ad(1) disj by simp
    moreover have "\<forall>x \<in> set (?kept @ ad). tickAligned (price x) \<and> 0 < price x \<and> price x < 1"
    proof
      fix x assume "x \<in> set (?kept @ ad)"
      then consider "x \<in> set (orders t)" | "x \<in> set ad" by auto
      then show "tickAligned (price x) \<and> 0 < price x \<and> price x < 1"
      proof cases
        case 1
        with each show ?thesis by blast
      next
        case 2
        with ad(2) obtain y where "y \<in> set (orders t)" "price y = price x" by metis
        with each show ?thesis by metis
      qed
    qed
    ultimately have "ladderOk (sortDesc (?kept @ ad))" by (rule ladderOk_sortDesc)
    with r False show ?thesis by (simp add: reopenMarket_def)
  qed
qed

text \<open>Initial placement: the orders placed are at target levels, each at most once.\<close>

lemma placeAll_shape:
  assumes "distinct ps"
  shows "\<exists>new. fst (placeAll g m ps acc s) = acc @ new
             \<and> set (map price new) \<subseteq> set ps \<and> distinct (map price new)"
  using assms
proof (induction ps arbitrary: acc s)
  case Nil
  have "fst (placeAll g m [] acc s) = acc @ [] \<and> set (map price []) \<subseteq> set [] \<and> distinct (map price [])"
    by simp
  then show ?case by (rule exI[of _ "[]"])
next
  case (Cons p ps)
  from Cons.prems have d: "distinct ps" and np: "p \<notin> set ps" by auto
  from openOrder_cases[of g m p s]
  show ?case
  proof
    assume "\<exists>s1. openOrder g m p s = (OpenFailed, s1)"
    then obtain s1 where o: "openOrder g m p s = (OpenFailed, s1)" by blast
    from Cons.IH[OF d, of acc s1] obtain new where
      "fst (placeAll g m ps acc s1) = acc @ new \<and> set (map price new) \<subseteq> set ps \<and> distinct (map price new)"
      by blast
    with o have "fst (placeAll g m (p # ps) acc s) = acc @ new
             \<and> set (map price new) \<subseteq> set (p # ps) \<and> distinct (map price new)" by auto
    then show ?thesis by (rule exI[of _ new])
  next
    assume "\<exists>oid h ttl s1. openOrder g m p s = (Placed oid h ttl, s1)"
    then obtain oid h ttl s1 where o: "openOrder g m p s = (Placed oid h ttl, s1)" by blast
    let ?y = "\<lparr>price = p, orderHash = h\<rparr>"
    from Cons.IH[OF d, of "acc @ [?y]" s1] obtain new where
      new: "fst (placeAll g m ps (acc @ [?y]) s1) = (acc @ [?y]) @ new"
           "set (map price new) \<subseteq> set ps" "distinct (map price new)"
      by blast
    with o np have "fst (placeAll g m (p # ps) acc s) = acc @ (?y # new)
             \<and> set (map price (?y # new)) \<subseteq> set (p # ps) \<and> distinct (map price (?y # new))" by auto
    then show ?thesis by (rule exI[of _ "?y # new"])
  qed
qed

lemma targetPrices_ok:
  "sorted_wrt (>) (targetPrices bids k)
   \<and> (\<forall>p \<in> set (targetPrices bids k). tickAligned p \<and> 0 < p \<and> p \<le> toFixed3 (bid_price (bids ! k) - tick))"
proof -
  let ?anchor = "toFixed3 (bid_price (bids ! k) - tick)"
  let ?levels = "targetLoop ?anchor 0 (min 5 (6 - k))"
  have al: "tickAligned ?anchor" by (rule tickAligned_toFixed3)
  have nth: "\<forall>i < length ?levels. ?levels ! i = ?anchor - of_nat i * tick \<and> 0 < ?levels ! i"
    using targetLoop_nth[OF al, of _ 0 "min 5 (6 - k)"] by simp
  have desc: "sorted_wrt (>) ?levels"
    using nth by (intro descending_by_ticks[of _ ?anchor]) simp
  have each: "\<forall>p \<in> set ?levels. tickAligned p \<and> 0 < p \<and> p \<le> ?anchor"
  proof
    fix p assume "p \<in> set ?levels"
    then obtain i where i: "i < length ?levels" "?levels ! i = p" by (auto simp: in_set_conv_nth)
    with nth have p: "p = ?anchor - of_nat i * tick" "0 < p" by auto
    have "?anchor - of_nat i * tick \<le> ?anchor" by (simp add: tick_def)
    with p al show "tickAligned p \<and> 0 < p \<and> p \<le> ?anchor" by (simp add: tickAligned_diff)
  qed
  from desc each show ?thesis by (simp add: targetPrices_def Let_def)
qed

lemma processMarket_keeps:
  assumes ex: "getExistingOrdersForMarket g marketId s = (existingOrders, s1)"
    and d: "distinct (map price existingOrders)"
    and each: "\<forall>x \<in> set existingOrders. tickAligned (price x) \<and> 0 < price x \<and> price x < 1"
    and bk: "bookWithinOne g"
    and res: "fst (processMarket g marketId ttl s) = Some t'"
  shows "ladderOk (orders t')"
proof -
  obtain bids s2 where fb: "fetchOrderbook g marketId s1 = (bids, s2)" by fastforce
  have exok: "ladderOk (orders (newTracked marketId ttl existingOrders))"
    using ladderOk_sortDesc[OF d each] by (simp add: newTracked_def)
  show ?thesis
  proof (cases "findStartIndex bids")
    case None
    with res ex fb exok show ?thesis
      by (auto simp: processMarket_def split: if_splits)
  next
    case (Some k)
    then have ne: "bids \<noteq> []" by (auto simp: findStartIndex_def)
    let ?ps = "filter (\<lambda>p. p \<notin> set (map price existingOrders)) (targetPrices bids k)"
    show ?thesis
    proof (cases "?ps = []")
      case True
      with res ex fb exok Some ne show ?thesis by (simp add: processMarket_def)
    next
      case False
      from Some depthScan_Some[of 0 0 bids k] have "k < length bids" by (simp add: findStartIndex_def)
      then have "bids ! k \<in> set bids" by simp
      with fetchOrderbook_within[OF bk fb] have "bid_price (bids ! k) \<le> 1" by blast
      then have a1: "toFixed3 (bid_price (bids ! k) - tick) < 1" by (intro toFixed3_below_one) simp
      from targetPrices_ok[of bids k] have dps: "distinct ?ps"
        and psok: "\<forall>p \<in> set ?ps. tickAligned p \<and> 0 < p \<and> p < 1"
        using a1 by (auto dest: strict_distinct)
      from placeAll_shape[OF dps, of g marketId existingOrders s2]
      obtain new where new: "fst (placeAll g marketId ?ps existingOrders s2) = existingOrders @ new"
        "set (map price new) \<subseteq> set ?ps" "distinct (map price new)" by blast
      have "distinct (map price (existingOrders @ new))"
        using d new(2,3) by auto
      moreover have "\<forall>x \<in> set (existingOrders @ new). tickAligned (price x) \<and> 0 < price x \<and> price x < 1"
      proof
        fix x assume "x \<in> set (existingOrders @ new)"
        then consider "x \<in> set existingOrders" | "x \<in> set new" by auto
        then show "tickAligned (price x) \<and> 0 < price x \<and> price x < 1"
        proof cases
          case 1
          with each show ?thesis by blast
        next
          case 2
          then have "price x \<in> set ?ps" using new(2) by auto
          with psok show ?thesis by blast
        qed
      qed
      ultimately have "ladderOk (sortDesc (existingOrders @ new))" by (rule ladderOk_sortDesc)
      with res ex fb Some ne False new(1) show ?thesis
        by (auto simp: processMarket_def Let_def case_prod_beta newTracked_def split: if_splits)
    qed
  qed
qed

text \<open>
  C9, as the code has it. With bids priced at most 1: a rebalance pass and the reopening
  of filled orders keep a well-formed ladder well-formed (prices strictly decreasing,
  tick-aligned, strictly between 0 and 1), and the initial placement yields a well-formed
  ladder when the orders found open at start-up have distinct, tick-aligned prices
  strictly between 0 and 1. Reconciliation takes over what the gateway lists: after it
  the list is sorted by price, highest first, and no more than that.
\<close>

theorem ladder_invariant_kept:
  assumes bk: "bookWithinOne g"
  shows "(ladderOk (orders t) \<longrightarrow> ladderOk (orders (fst (checkAndRebalance g t s))))
       \<and> (ladderOk (orders t) \<longrightarrow> ladderOk (orders (fst (reopenMarket g t s))))
       \<and> (distinct (map price (fst (getExistingOrdersForMarket g marketId s)))
            \<and> (\<forall>x \<in> set (fst (getExistingOrdersForMarket g marketId s)).
                   tickAligned (price x) \<and> 0 < price x \<and> price x < 1)
            \<longrightarrow> (\<forall>t'. fst (processMarket g marketId ttl s) = Some t' \<longrightarrow> ladderOk (orders t')))
       \<and> sorted_wrt (\<ge>) (map price (orders (fst (syncMarket allOpenOrders t st))))"
proof (intro conjI impI allI)
  assume "ladderOk (orders t)"
  then show "ladderOk (orders (fst (checkAndRebalance g t s)))"
    using checkAndRebalance_keeps[OF _ bk] by blast
next
  assume "ladderOk (orders t)"
  then show "ladderOk (orders (fst (reopenMarket g t s)))" by (rule reopenMarket_keeps)
next
  fix t'
  assume a: "distinct (map price (fst (getExistingOrdersForMarket g marketId s)))
            \<and> (\<forall>x \<in> set (fst (getExistingOrdersForMarket g marketId s)).
                   tickAligned (price x) \<and> 0 < price x \<and> price x < 1)"
    and r: "fst (processMarket g marketId ttl s) = Some t'"
  have e: "getExistingOrdersForMarket g marketId s
         = (fst (getExistingOrdersForMarket g marketId s), snd (getExistingOrdersForMarket g marketId s))"
    by simp
  from a show "ladderOk (orders t')"
    using processMarket_keeps[OF e _ _ bk r] by blast
next
  show "sorted_wrt (\<ge>) (map price (orders (fst (syncMarket allOpenOrders t st))))"
    unfolding syncMarket_orders by (rule sortDesc_descending)
qed

theorem ladder_invariant_kept_witness:
  "bookWithinOne (acceptingGateway floorBook)
   \<and> ladderOk (orders market620)
   \<and> ladderOk (orders (fst (checkAndRebalance (acceptingGateway floorBook) market620 emptySys)))
   \<and> ladderOk (orders (fst (reopenMarket (acceptingGateway floorBook) market620 emptySys)))
   \<and> fst (getExistingOrdersForMarket (acceptingGateway floorBook) 7 emptySys) = []
   \<and> (case fst (processMarket (acceptingGateway floorBook) 7 ''m'' emptySys) of
         Some t' \<Rightarrow> ladderOk (orders t') | None \<Rightarrow> False)"
proof -
  let ?g = "acceptingGateway floorBook"
  have b: "bookWithinOne ?g"
    by (simp add: bookWithinOne_def acceptingGateway_def floorBook_def)
  have l: "ladderOk (orders market620)" by code_simp
  have e: "fst (getExistingOrdersForMarket ?g 7 emptySys) = []" by code_simp
  have p: "fst (processMarket ?g 7 ''m'' emptySys) \<noteq> None" by code_simp
  note k = ladder_invariant_kept[OF b, of market620 emptySys 7 "''m''"]
  have r1: "ladderOk (orders (fst (checkAndRebalance ?g market620 emptySys)))"
    using k[THEN conjunct1] l by (rule mp)
  have r2: "ladderOk (orders (fst (reopenMarket ?g market620 emptySys)))"
    using k[THEN conjunct2, THEN conjunct1] l by (rule mp)
  have h3: "distinct (map price (fst (getExistingOrdersForMarket ?g 7 emptySys)))
            \<and> (\<forall>x \<in> set (fst (getExistingOrdersForMarket ?g 7 emptySys)).
                   tickAligned (price x) \<and> 0 < price x \<and> price x < 1)"
    unfolding e by simp
  have "\<forall>t'. fst (processMarket ?g 7 ''m'' emptySys) = Some t' \<longrightarrow> ladderOk (orders t')"
    using k[THEN conjunct2, THEN conjunct2, THEN conjunct1] h3 by (rule mp)
  with p have r3: "case fst (processMarket ?g 7 ''m'' emptySys) of
         Some t' \<Rightarrow> ladderOk (orders t') | None \<Rightarrow> False"
    by (cases "fst (processMarket ?g 7 ''m'' emptySys)") auto
  show ?thesis
    by (intro conjI) (rule b l r1 r2 e r3)+
qed

text \<open>
  C9 as stated fails at reconciliation: from the example ladder and a listing that also
  has an order at 0.620 and one without amounts, the pass yields two orders at 0.620 and
  one at price 0.
\<close>

theorem reconciliation_breaks_ladder_counterexample:
  "ladderOk (orders market620)
   \<and> map price (orders (fst (syncMarket crowdedListing market620 [])))
       = [620 / 1000, 620 / 1000, 619 / 1000, 618 / 1000, 617 / 1000, 616 / 1000, 0]
   \<and> \<not> ladderOk (orders (fst (syncMarket crowdedListing market620 [])))"
  by code_simp

section \<open>Properties: the down-shift\<close>



lemma incrementCancelCount_fields:
  "orders (incrementCancelCount now t n) = orders t
   \<and> tm_id (incrementCancelCount now t n) = tm_id t
   \<and> cancelCount (incrementCancelCount now t n) = cancelCount t + n"
  by (simp add: incrementCancelCount_def Let_def)


lemma checkAndRebalance_full_ladder:
  assumes "cooldownUntil t = 0" and "length (orders t) = 5"
    and "fetchOrderbook g (tm_id t) s0 = (bids, s)" and "bids \<noteq> []"
  shows "checkAndRebalance g t s0 = directional g t bids s"
  using assms by (simp add: checkAndRebalance_def rebalanceActive_def)


lemma acceptingGateway_cooperates:
  "detailsAvailable (acceptingGateway book) \<and> cancelsSucceed (acceptingGateway book)
   \<and> opensSucceed (acceptingGateway book)"
  by (simp add: detailsAvailable_def cancelsSucceed_def opensSucceed_def acceptingGateway_def
        regularDetails_def)



section \<open>Properties: the up-shift\<close>

lemma validMovesLoop_spec:
  "0 < i \<Longrightarrow>
     i - 1 \<le> validMovesLoop bids hi i fuel \<and> validMovesLoop bids hi i fuel < i + fuel
     \<and> (\<forall>j. i \<le> j \<and> j \<le> validMovesLoop bids hi i fuel
            \<longrightarrow> depthAbove bids (toFixed3 (hi + of_nat j * tick)) \<ge> VALUE_THRESHOLD)
     \<and> (validMovesLoop bids hi i fuel + 1 < i + fuel
            \<longrightarrow> depthAbove bids (toFixed3 (hi + of_nat (validMovesLoop bids hi i fuel + 1) * tick))
                  < VALUE_THRESHOLD)"
proof (induction fuel arbitrary: i)
  case 0
  then show ?case by auto
next
  case (Suc fuel)
  show ?case
  proof (cases "depthAbove bids (toFixed3 (hi + of_nat i * tick)) \<ge> VALUE_THRESHOLD")
    case False
    with Suc.prems show ?thesis by auto
  next
    case True
    then have run: "validMovesLoop bids hi i (Suc fuel) = validMovesLoop bids hi (Suc i) fuel" by simp
    from Suc.IH[of "Suc i"]
    have ih: "i \<le> validMovesLoop bids hi (Suc i) fuel" "validMovesLoop bids hi (Suc i) fuel < Suc i + fuel"
      "\<forall>j. Suc i \<le> j \<and> j \<le> validMovesLoop bids hi (Suc i) fuel
            \<longrightarrow> depthAbove bids (toFixed3 (hi + of_nat j * tick)) \<ge> VALUE_THRESHOLD"
      "validMovesLoop bids hi (Suc i) fuel + 1 < Suc i + fuel
            \<longrightarrow> depthAbove bids (toFixed3 (hi + of_nat (validMovesLoop bids hi (Suc i) fuel + 1) * tick))
                  < VALUE_THRESHOLD"
      by auto
    have "\<forall>j. i \<le> j \<and> j \<le> validMovesLoop bids hi (Suc i) fuel
            \<longrightarrow> depthAbove bids (toFixed3 (hi + of_nat j * tick)) \<ge> VALUE_THRESHOLD"
    proof (intro allI impI)
      fix j assume j: "i \<le> j \<and> j \<le> validMovesLoop bids hi (Suc i) fuel"
      show "depthAbove bids (toFixed3 (hi + of_nat j * tick)) \<ge> VALUE_THRESHOLD"
      proof (cases "j = i")
        case True
        with \<open>depthAbove bids (toFixed3 (hi + of_nat i * tick)) \<ge> VALUE_THRESHOLD\<close> show ?thesis by simp
      next
        case False
        with j have "Suc i \<le> j" by simp
        with ih(3) j show ?thesis by blast
      qed
    qed
    with ih show ?thesis unfolding run by auto
  qed
qed

text \<open>
  \<^verbatim>\<open>validMoves\<close> is the largest \<open>v\<close> up to the candidate count such that every step
  \<open>1, \<dots>, v\<close> has enough depth above its target price.
\<close>

lemma validMoves_spec:
  "validMoves bids best hi len \<le> min (nat (round ((best - hi) * 1000))) len
   \<and> (\<forall>j. 1 \<le> j \<and> j \<le> validMoves bids best hi len
          \<longrightarrow> depthAbove bids (toFixed3 (hi + of_nat j * tick)) \<ge> VALUE_THRESHOLD)
   \<and> (validMoves bids best hi len < min (nat (round ((best - hi) * 1000))) len
          \<longrightarrow> depthAbove bids (toFixed3 (hi + of_nat (validMoves bids best hi len + 1) * tick))
                < VALUE_THRESHOLD)"
proof -
  let ?c = "min (nat (round ((best - hi) * 1000))) len"
  have e: "validMoves bids best hi len = validMovesLoop bids hi 1 ?c"
    by (simp add: validMoves_def Let_def)
  note sp = validMovesLoop_spec[of 1 bids hi ?c, OF zero_less_one]
  note a = sp[THEN conjunct2, THEN conjunct1]
  note b = sp[THEN conjunct2, THEN conjunct2, THEN conjunct1]
  note c = sp[THEN conjunct2, THEN conjunct2, THEN conjunct2]
  from a have a': "validMovesLoop bids hi 1 ?c \<le> ?c" by linarith
  from c have c': "validMovesLoop bids hi 1 ?c < ?c
            \<longrightarrow> depthAbove bids (toFixed3 (hi + of_nat (validMovesLoop bids hi 1 ?c + 1) * tick))
                  < VALUE_THRESHOLD" by simp
  show ?thesis unfolding e using a' b c' by (intro conjI)
qed

lemma depthAbove_positive:
  "depthAbove bids p \<ge> VALUE_THRESHOLD \<Longrightarrow> bids \<noteq> [] \<and> p < bid_price (hd bids)"
  by (cases bids) (auto simp: depthAbove_def VALUE_THRESHOLD_def split: if_splits)

lemma openTopOrders_empty: "orders t = [] \<Longrightarrow> openTopOrders g t n s = (t, s)"
  by (cases n) simp_all

text \<open>
  The up-shift with a cooperating gateway: the bottom \<open>v\<close> orders go; when some order is
  left, \<open>v\<close> new ones are placed above the highest price; when none is left, none is placed.
\<close>

lemma rebalanceUp_coop:
  assumes g: "detailsAvailable g" "cancelsSucceed g" "opensSucceed g"
    and ok: "ladderOk (orders t)" and d: "distinct (map orderHash (orders t))"
    and top: "orders t = hi # rest" and book: "bids = b # bs" and le1: "bid_price b \<le> 1"
    and v: "v = validMoves bids (bid_price b) (price hi) (length (orders t))" and pos: "0 < v"
  shows "cancelCount (fst (rebalanceUp g t bids b hi s)) = cancelCount t + v
       \<and> (v = length (orders t) \<longrightarrow> orders (fst (rebalanceUp g t bids b hi s)) = [])
       \<and> (v < length (orders t) \<longrightarrow>
            length (orders (fst (rebalanceUp g t bids b hi s))) = length (orders t)
            \<and> (\<exists>new. orders (fst (rebalanceUp g t bids b hi s))
                        = new @ take (length (orders t) - v) (orders t)
                    \<and> length new = v
                    \<and> (\<forall>j < v. price (new ! j) = price hi + of_nat (v - j) * tick)))"
proof -
  from validMoves_spec[of bids "bid_price b" "price hi" "length (orders t)"] v
  have vle: "v \<le> length (orders t)"
    and dv: "\<forall>j. 1 \<le> j \<and> j \<le> v \<longrightarrow> depthAbove bids (toFixed3 (price hi + of_nat j * tick)) \<ge> VALUE_THRESHOLD"
    by auto
  from cancelBottomOrders_coop[OF g(1,2) d pos vle, of s]
  obtain s1 where c: "cancelBottomOrders g t v s =
     (Inr v, incrementCancelCount (gw_now g (history s1))
               (t\<lparr>orders := take (length (orders t) - v) (orders t)\<rparr>) v, s1)"
    by blast
  let ?t1 = "incrementCancelCount (gw_now g (history s1))
               (t\<lparr>orders := take (length (orders t) - v) (orders t)\<rparr>) v"
  have f1: "orders ?t1 = take (length (orders t) - v) (orders t)" "cancelCount ?t1 = cancelCount t + v"
    using incrementCancelCount_fields[of "gw_now g (history s1)"
            "t\<lparr>orders := take (length (orders t) - v) (orders t)\<rparr>" v]
    by simp_all
  have run: "rebalanceUp g t bids b hi s = openTopOrders g ?t1 v s1"
    using c v pos by (simp add: rebalanceUp_def Let_def)
  have ok1: "ladderOk (orders ?t1)"
    using ok unfolding f1(1) ladderOk_def
    by (auto simp: list_all_iff take_map[symmetric] sorted_wrt_take dest: in_set_takeD)
  from openTopOrders_shape[OF ok1, of g v s1]
  obtain new where new: "orders (fst (openTopOrders g ?t1 v s1)) = new @ orders ?t1"
      "\<forall>j < length new. price (new ! j) = price (hd (orders ?t1)) + of_nat (length new - j) * tick"
      "opensSucceed g \<and> orders ?t1 \<noteq> [] \<and> price (hd (orders ?t1)) + of_nat v * tick < 1
                  \<longrightarrow> length new = v"
      "cancelCount (fst (openTopOrders g ?t1 v s1)) = cancelCount ?t1"
    by blast
  have c1: "cancelCount (fst (rebalanceUp g t bids b hi s)) = cancelCount t + v"
    unfolding run using new(4) f1(2) by simp
  have c2: "v = length (orders t) \<longrightarrow> orders (fst (rebalanceUp g t bids b hi s)) = []"
  proof
    assume "v = length (orders t)"
    then have "orders ?t1 = []" using f1(1) by simp
    then show "orders (fst (rebalanceUp g t bids b hi s)) = []"
      unfolding run by (simp add: openTopOrders_empty)
  qed
  have c3: "v < length (orders t) \<longrightarrow>
            length (orders (fst (rebalanceUp g t bids b hi s))) = length (orders t)
            \<and> (\<exists>new. orders (fst (rebalanceUp g t bids b hi s))
                        = new @ take (length (orders t) - v) (orders t)
                    \<and> length new = v
                    \<and> (\<forall>j < v. price (new ! j) = price hi + of_nat (v - j) * tick))"
  proof
    assume lt: "v < length (orders t)"
    then have "0 < length (orders t) - v" by simp
    then have ne1: "orders ?t1 \<noteq> []" using f1(1) top by (cases "length (orders t) - v") simp_all
    have hd1: "hd (orders ?t1) = hi" using lt top f1(1) by (cases "length (orders t) - v") simp_all
    from dv pos have "depthAbove bids (toFixed3 (price hi + of_nat v * tick)) \<ge> VALUE_THRESHOLD" by simp
    from depthAbove_positive[OF this] book have above: "toFixed3 (price hi + of_nat v * tick) < bid_price b"
      by simp
    from ok top have "tickAligned (price hi)" by (simp add: ladderOk_def)
    then have "toFixed3 (price hi + of_nat v * tick) = price hi + of_nat v * tick" by (rule toFixed3_add)
    with above le1 have "price hi + of_nat v * tick < 1" by simp
    with new(3) g(3) ne1 hd1 have len: "length new = v" by simp
    have "length (orders (fst (rebalanceUp g t bids b hi s))) = length (orders t)"
      unfolding run new(1) f1(1) using len lt by simp
    moreover have "orders (fst (rebalanceUp g t bids b hi s)) = new @ take (length (orders t) - v) (orders t)
                    \<and> length new = v
                    \<and> (\<forall>j < v. price (new ! j) = price hi + of_nat (v - j) * tick)"
      unfolding run using new(1,2) f1(1) len hd1 by simp
    then have "\<exists>new. orders (fst (rebalanceUp g t bids b hi s))
                        = new @ take (length (orders t) - v) (orders t)
                    \<and> length new = v
                    \<and> (\<forall>j < v. price (new ! j) = price hi + of_nat (v - j) * tick)"
      by (rule exI[of _ new])
    ultimately show "length (orders (fst (rebalanceUp g t bids b hi s))) = length (orders t)
            \<and> (\<exists>new. orders (fst (rebalanceUp g t bids b hi s))
                        = new @ take (length (orders t) - v) (orders t)
                    \<and> length new = v
                    \<and> (\<forall>j < v. price (new ! j) = price hi + of_nat (v - j) * tick))"
      by (rule conjI)
  qed
  from c1 c2 c3 show ?thesis by (intro conjI)
qed

text \<open>
  C3 at the ladder 0.620 \<dots> 0.616 under a deep book whose best bid is 0.630: every one of
  the five steps has enough depth, all five orders are cancelled from the bottom, and the
  pass ends with an empty ladder: nothing is placed at the top.
\<close>

theorem up_shift_empties_ladder:
  "validMoves (fst (fetchOrderbook (acceptingGateway book630) 7 emptySys)) (630 / 1000)
      (620 / 1000) (length (orders market620)) = 5
   \<and> length (orders market620) = 5
   \<and> orders (fst (checkAndRebalance (acceptingGateway book630) market620 emptySys)) = []
   \<and> cancelCount (fst (checkAndRebalance (acceptingGateway book630) market620 emptySys)) = 5"
proof -
  let ?g = "acceptingGateway book630"
  let ?bids = "fst (fetchOrderbook ?g 7 emptySys)"
  let ?s = "snd (fetchOrderbook ?g 7 emptySys)"
  let ?b = "hd ?bids"
  let ?hi = "orderAt 620 ''a''"
  note co = acceptingGateway_cooperates[of book630]
  have ok: "ladderOk (orders market620)" by code_simp
  have d: "distinct (map orderHash (orders market620))" by code_simp
  have top: "orders market620 = ?hi # tl (orders market620)"
    by (simp add: market620_def ladder620_def)
  have bne: "?bids \<noteq> []" by code_simp
  then have book: "?bids = ?b # tl ?bids" by simp
  have bb: "bid_price ?b = 630 / 1000" by code_simp
  have hp: "price ?hi = 620 / 1000" by (simp add: orderAt_def)
  have le1: "bid_price ?b \<le> 1" unfolding bb by simp
  have len: "length (orders market620) = 5" by (simp add: market620_def ladder620_def)
  have v5: "validMoves ?bids (630 / 1000) (620 / 1000) (length (orders market620)) = 5" by code_simp
  then have v: "5 = validMoves ?bids (bid_price ?b) (price ?hi) (length (orders market620))"
    unfolding bb hp by (rule sym)
  note ru = rebalanceUp_coop[OF co[THEN conjunct1] co[THEN conjunct2, THEN conjunct1]
      co[THEN conjunct2, THEN conjunct2] ok d top book le1 v, of ?s]
  have pos: "(0::nat) < 5" by simp
  have r1: "cancelCount (fst (rebalanceUp ?g market620 ?bids ?b ?hi ?s)) = 5"
    using ru[OF pos, THEN conjunct1] by (simp add: market620_def)
  have r2: "orders (fst (rebalanceUp ?g market620 ?bids ?b ?hi ?s)) = []"
    using ru[OF pos, THEN conjunct2, THEN conjunct1] len by simp
  have nodown: "\<not> (bid_price ?b \<le> price ?hi \<or> depthAbove ?bids (price ?hi) < VALUE_THRESHOLD)"
    unfolding bb hp by code_simp
  have up: "bid_price ?b > price ?hi + tick" unfolding bb hp by (simp add: tick_def)
  have dir: "directional ?g market620 ?bids ?s = rebalanceUp ?g market620 ?bids ?b ?hi ?s"
    using nodown up bne top by (cases ?bids) (simp_all add: directional_def market620_def ladder620_def)
  have pass: "checkAndRebalance ?g market620 emptySys = directional ?g market620 ?bids ?s"
    using bne by (intro checkAndRebalance_full_ladder) (simp_all add: market620_def ladder620_def)
  show ?thesis
    unfolding pass dir by (intro conjI) (rule v5 len r1 r2)+
qed

end
